theory Spec2Isabelle
  imports Main
begin

section \<open>Ordered integer-keyed maps\<close>

text \<open>
  The three containers of a fret diagram are \<^verbatim>\<open>std::map<int, V>\<close>. Such a map is kept
  here as the sequence of its entries in iteration order, that is in ascending key order
  with every key at most once. Equality of two such sequences is the deep equality
  \<^verbatim>\<open>operator==\<close> of the C++ containers.
\<close>

type_synonym 'v intmap = "(int \<times> 'v) list"

text \<open>The representation invariant of \<^verbatim>\<open>std::map\<close>: strictly ascending keys.\<close>

definition ordered :: "'v intmap \<Rightarrow> bool" where
  "ordered m = sorted_wrt (<) (map fst m)"

text \<open>\<^verbatim>\<open>m.find(k)\<close> is \<open>map_of m k\<close>; \<^verbatim>\<open>m[k] = v\<close> is \<open>map_assign k v m\<close>.\<close>

fun map_assign :: "int \<Rightarrow> 'v \<Rightarrow> 'v intmap \<Rightarrow> 'v intmap" where
  "map_assign k v [] = [(k, v)]"
| "map_assign k v (e # es) =
     (if fst e = k then (k, v) # es
      else if k < fst e then (k, v) # e # es
      else e # map_assign k v es)"

text \<open>\<^verbatim>\<open>m.erase(k)\<close>: the entry with key \<open>k\<close> goes, every other entry stays in place.\<close>

definition map_erase :: "int \<Rightarrow> 'v intmap \<Rightarrow> 'v intmap" where
  "map_erase k m = filter (\<lambda>e. fst e \<noteq> k) m"

text \<open>
  Reading \<^verbatim>\<open>m[k]\<close> of a map of vectors: \<^verbatim>\<open>operator[]\<close> default-constructs an empty
  vector for a key that is absent.
\<close>

definition map_index :: "'a list intmap \<Rightarrow> int \<Rightarrow> 'a list" where
  "map_index m k = (case map_of m k of None \<Rightarrow> [] | Some v \<Rightarrow> v)"

section \<open>Fret items\<close>

text \<open>
  Modelled from the spec: the header \<^verbatim>\<open>fret.h\<close> (the enums \<^verbatim>\<open>FretDotType\<close> and
  \<^verbatim>\<open>FretMarkerType\<close>, the structs \<^verbatim>\<open>FretItem::Dot\<close>, \<^verbatim>\<open>FretItem::Marker\<close>,
  \<^verbatim>\<open>FretItem::Barre\<close> and their \<^verbatim>\<open>exists()\<close> members) is not part of the excerpt.
  The spec gives Dot = (fret, type in NORMAL, CROSS, SQUARE, TRIANGLE) with fret 0 the
  "does not exist" sentinel and every fret above 0 existing, Marker = (type in NONE,
  CIRCLE, CROSS) existing when its type is not NONE, and Barre = (startString, endString)
  with end -1 for "extends to the last string"; the source builds the absent barre as
  \<^verbatim>\<open>Barre(-1, -1)\<close> and takes start -1 as "remove".
\<close>

datatype FretDotType = DotNORMAL | DotCROSS | DotSQUARE | DotTRIANGLE

datatype FretMarkerType = MarkerNONE | MarkerCIRCLE | MarkerCROSS

datatype Dot = Dot (fret: int) (dtype: FretDotType)

datatype Marker = Marker (mtype: FretMarkerType)

datatype Barre = Barre (startString: int) (endString: int)

definition dot_exists :: "Dot \<Rightarrow> bool" where
  "dot_exists x = (0 < fret x)"

definition marker_exists :: "Marker \<Rightarrow> bool" where
  "marker_exists m = (mtype m \<noteq> MarkerNONE)"

definition barre_exists :: "Barre \<Rightarrow> bool" where
  "barre_exists b = (-1 < startString b)"

section \<open>The diagram\<close>

record FretDiagram =
  strings :: int
  frets :: int
  fretOffset :: int
  dots :: "Dot list intmap"
  markers :: "Marker intmap"
  barres :: "Barre intmap"

subsection \<open>Accessors\<close>

text \<open>\<^verbatim>\<open>FretDiagram::dot(s, f)\<close>; a fret of zero means all dots of the string.\<close>

definition dot :: "FretDiagram \<Rightarrow> int \<Rightarrow> int \<Rightarrow> Dot list" where
  "dot d s f =
     (case map_of (dots d) s of
        None \<Rightarrow> [Dot 0 DotNORMAL]
      | Some ds \<Rightarrow>
          if f \<noteq> 0 then
            (case find (\<lambda>x. fret x = f) ds of
               Some x \<Rightarrow> [x]
             | None \<Rightarrow> [Dot 0 DotNORMAL])
          else ds)"

definition marker :: "FretDiagram \<Rightarrow> int \<Rightarrow> Marker" where
  "marker d s = (case map_of (markers d) s of Some m \<Rightarrow> m | None \<Rightarrow> Marker MarkerNONE)"

definition barre :: "FretDiagram \<Rightarrow> int \<Rightarrow> Barre" where
  "barre d f = (case map_of (barres d) f of Some b \<Rightarrow> b | None \<Rightarrow> Barre (-1) (-1))"

subsection \<open>Removal helpers\<close>

definition removeBarre :: "int \<Rightarrow> FretDiagram \<Rightarrow> FretDiagram" where
  "removeBarre f d = d\<lparr>barres := map_erase f (barres d)\<rparr>"

text \<open>
  \<^verbatim>\<open>removeBarres(string, fret)\<close> walks the map with an iterator: an entry that exists
  and crosses the string is erased, unless a positive fret is given and the entry sits on
  another fret; every other entry is stepped over.
\<close>

fun removeBarres_walk :: "int \<Rightarrow> int \<Rightarrow> Barre intmap \<Rightarrow> Barre intmap" where
  "removeBarres_walk s f [] = []"
| "removeBarres_walk s f (e # es) =
     (if barre_exists (snd e) \<and> startString (snd e) \<le> s \<and>
         (s \<le> endString (snd e) \<or> endString (snd e) = -1)
      then (if 0 < f \<and> f \<noteq> fst e then e # removeBarres_walk s f es
            else removeBarres_walk s f es)
      else e # removeBarres_walk s f es)"

definition removeBarres :: "int \<Rightarrow> int \<Rightarrow> FretDiagram \<Rightarrow> FretDiagram" where
  "removeBarres s f d = d\<lparr>barres := removeBarres_walk s f (barres d)\<rparr>"

text \<open>
  \<^verbatim>\<open>removeMarker(s)\<close> erases the iterator that \<^verbatim>\<open>find(s)\<close> returns; its only caller
  checks first that the marker exists, so the key is present.
\<close>

definition removeMarker :: "int \<Rightarrow> FretDiagram \<Rightarrow> FretDiagram" where
  "removeMarker s d = d\<lparr>markers := map_erase s (markers d)\<rparr>"

text \<open>\<^verbatim>\<open>removeDot(s, f)\<close>; a fret of zero (or below) removes all dots of the string.\<close>

definition removeDot :: "int \<Rightarrow> int \<Rightarrow> FretDiagram \<Rightarrow> FretDiagram" where
  "removeDot s f d =
     (let m1 = (if 0 < f
                then map_assign s (filter (\<lambda>x. dot_exists x \<and> fret x \<noteq> f) (dot d s 0)) (dots d)
                else map_assign s [] (dots d))
      in d\<lparr>dots := (if length (map_index m1 s) = 0 then map_erase s m1 else m1)\<rparr>)"

subsection \<open>Mutators\<close>

definition setMarker :: "int \<Rightarrow> FretMarkerType \<Rightarrow> FretDiagram \<Rightarrow> FretDiagram" where
  "setMarker s mt d =
     (if 0 \<le> s \<and> s < strings d then
        (let d1 = d\<lparr>markers := map_assign s (Marker mt) (markers d)\<rparr>
         in if mt \<noteq> MarkerNONE then removeBarres s 0 (removeDot s 0 d1) else d1)
      else d)"

text \<open>
  \<^verbatim>\<open>setDot(string, fret, add, dtype)\<close>. With \<open>add\<close> the source reads element 0 of the
  vector \<^verbatim>\<open>dot(string, fret)\<close>; an empty vector there would be an out-of-bounds read,
  kept as the branch that leaves the diagram alone.
\<close>

definition pushDot :: "int \<Rightarrow> Dot \<Rightarrow> FretDiagram \<Rightarrow> FretDiagram" where
  "pushDot s x d = d\<lparr>dots := map_assign s (map_index (dots d) s @ [x]) (dots d)\<rparr>"

definition setDot :: "int \<Rightarrow> int \<Rightarrow> bool \<Rightarrow> FretDotType \<Rightarrow> FretDiagram \<Rightarrow> FretDiagram" where
  "setDot s f add dt d =
     (if f = 0 then removeDot s f d
      else if 0 \<le> s \<and> s < strings d then
        (if add then
           (case dot d s f of
              [] \<Rightarrow> d
            | x # _ \<Rightarrow> if dot_exists x then removeDot s f d else pushDot s (Dot f dt) d)
         else setMarker s MarkerNONE
                (pushDot s (Dot f dt) (d\<lparr>dots := map_assign s [] (dots d)\<rparr>)))
      else d)"

text \<open>\<^verbatim>\<open>setBarre(startString, endString, fret)\<close>.\<close>

definition setBarre :: "int \<Rightarrow> int \<Rightarrow> int \<Rightarrow> FretDiagram \<Rightarrow> FretDiagram" where
  "setBarre ss es f d =
     (if ss = -1 then removeBarre f d
      else if 0 \<le> ss \<and> -1 \<le> es \<and> ss < strings d \<and> es < strings d
      then d\<lparr>barres := map_assign f (Barre ss es) (barres d)\<rparr>
      else d)"

text \<open>
  \<^verbatim>\<open>removeDotsMarkers(ss, es, fret)\<close>: the loop runs over the strings \<open>ss, ..., end\<close>
  with both ends included, where \<open>end\<close> is the string count for an open barre.
\<close>

definition removeDotsMarkers_step :: "int \<Rightarrow> int \<Rightarrow> FretDiagram \<Rightarrow> FretDiagram" where
  "removeDotsMarkers_step f s d =
     (let d1 = removeDot s f d
      in if marker_exists (marker d1 s) then removeMarker s d1 else d1)"

definition removeDotsMarkers :: "int \<Rightarrow> int \<Rightarrow> int \<Rightarrow> FretDiagram \<Rightarrow> FretDiagram" where
  "removeDotsMarkers ss es f d =
     (if ss = -1 then d
      else fold (removeDotsMarkers_step f) [ss..(if es = -1 then strings d else es)] d)"

text \<open>
  \<^verbatim>\<open>setBarre(string, fret, add)\<close>, the form used for shift-clicks; \<open>add\<close> is unused.
\<close>

definition setBarre_toggle :: "int \<Rightarrow> int \<Rightarrow> bool \<Rightarrow> FretDiagram \<Rightarrow> FretDiagram" where
  "setBarre_toggle s f add d =
     (let b = barre d f in
      if \<not> barre_exists b then
        (if s < strings d - 1
         then removeDotsMarkers s (-1) f (d\<lparr>barres := map_assign f (Barre s (-1)) (barres d)\<rparr>)
         else d)
      else if endString b = -1 \<and> startString b < s
      then d\<lparr>barres := map_assign f (Barre (startString b) s) (barres d)\<rparr>
      else removeBarre f (removeDotsMarkers (startString b) (endString b) f d))"

definition clear :: "FretDiagram \<Rightarrow> FretDiagram" where
  "clear d = d\<lparr>dots := [], markers := [], barres := []\<rparr>"

text \<open>
  \<^verbatim>\<open>setStrings(n)\<close>. The first loop fills two temporary maps from the accessors
  \<^verbatim>\<open>dot(string)\<close> and \<^verbatim>\<open>marker(string)\<close>; the second loop visits the frets
  \<open>1, ..., _frets\<close> and re-indexes or removes the barre found there.
\<close>

definition setStrings_dots :: "int \<Rightarrow> int \<Rightarrow> Dot list \<Rightarrow> Dot list intmap \<Rightarrow> Dot list intmap" where
  "setStrings_dots difference s ds tempDots =
     fold (\<lambda>x t. if dot_exists x
                  then map_assign (s + difference) (map_index t (s + difference) @ [x]) t
                  else t) ds tempDots"

definition setStrings_string ::
  "FretDiagram \<Rightarrow> int \<Rightarrow> int \<Rightarrow> Dot list intmap \<times> Marker intmap \<Rightarrow> Dot list intmap \<times> Marker intmap" where
  "setStrings_string d difference s acc =
     (if s + difference < 0 then acc
      else (setStrings_dots difference s (dot d s 0) (fst acc),
            if marker_exists (marker d s)
            then map_assign (s + difference) (marker d s) (snd acc)
            else snd acc))"

definition setStrings_barre :: "int \<Rightarrow> int \<Rightarrow> FretDiagram \<Rightarrow> FretDiagram" where
  "setStrings_barre difference f d =
     (if barre_exists (barre d f) then
        (if startString (barre d f) + difference \<le> 0 then removeBarre f d
         else d\<lparr>barres :=
                map_assign f
                  (Barre (max 0 (startString (barre d f) + difference))
                         (if endString (barre d f) = -1 then -1
                          else endString (barre d f) + difference))
                  (barres d)\<rparr>)
      else d)"

definition setStrings :: "int \<Rightarrow> FretDiagram \<Rightarrow> FretDiagram" where
  "setStrings n d =
     (let difference = n - strings d in
      if difference = 0 \<or> n \<le> 0 then d
      else
        (let temp = fold (setStrings_string d difference) [0..strings d - 1] ([], []);
             d1 = d\<lparr>dots := fst temp, markers := snd temp\<rparr>;
             d2 = fold (setStrings_barre difference) [1..frets d1] d1
         in d2\<lparr>strings := n\<rparr>))"

subsection \<open>Construction\<close>

text \<open>A diagram as the constructor leaves it: the three maps empty, no fret offset.\<close>

definition newDiagram :: "int \<Rightarrow> int \<Rightarrow> FretDiagram" where
  "newDiagram n k =
     \<lparr>strings = n, frets = k, fretOffset = 0, dots = [], markers = [], barres = []\<rparr>"

text \<open>
  Modelled from the spec: \<^verbatim>\<open>Char::digitValue\<close> is not part of the excerpt; a digit
  \<open>d\<close> of the pattern stands for fret \<open>d\<close>, and the source tests the result against -1
  for "not a digit".
\<close>

definition digitValue :: "char \<Rightarrow> int" where
  "digitValue c =
     (let n = (of_char c :: int) in if 48 \<le> n \<and> n \<le> 57 then n - 48 else -1)"

text \<open>
  The scanning loop of \<^verbatim>\<open>createFromString\<close>, one character per string; the state is
  the diagram, the offset, the barre string and the dots still to add.
\<close>

fun scanPattern ::
  "int \<Rightarrow> string \<Rightarrow> FretDiagram \<times> int \<times> int \<times> (int \<times> int) list
     \<Rightarrow> FretDiagram \<times> int \<times> int \<times> (int \<times> int) list" where
  "scanPattern i [] acc = acc"
| "scanPattern i (c # cs) (fd, offset, barreString, dotsToAdd) =
     scanPattern (i + 1) cs
       (if c = CHR ''X'' \<or> c = CHR ''O'' then
          (setMarker i (if c = CHR ''X'' then MarkerCROSS else MarkerCIRCLE) fd,
           offset, barreString, dotsToAdd)
        else if c = CHR ''-'' \<and> barreString = -1 then (fd, offset, i, dotsToAdd)
        else
          (let fr = digitValue c in
           if fr \<noteq> -1 then
             (fd, (if 0 < fr - 3 \<and> offset < fr - 3 then fr - 3 else offset), barreString,
              dotsToAdd @ [(i, fr)])
           else (fd, offset, barreString, dotsToAdd)))"

text \<open>
  \<^verbatim>\<open>createFromString(score, s)\<close>. The diagram that the factory hands out is the
  parameter \<open>fd0\<close>; \<^verbatim>\<open>setFrets\<close> and \<^verbatim>\<open>setFretOffset\<close> are the plain setters of the
  header.
\<close>

definition createFromString :: "FretDiagram \<Rightarrow> string \<Rightarrow> FretDiagram" where
  "createFromString fd0 s =
     (let fd1 = (setStrings (int (length s)) fd0)\<lparr>frets := 4\<rparr>;
          scanned = scanPattern 0 s (fd1, 0, -1, []);
          fd2 = fst scanned;
          offset = fst (snd scanned);
          barreString = fst (snd (snd scanned));
          dotsToAdd = snd (snd (snd scanned));
          fd3 = (if 0 < offset then fd2\<lparr>fretOffset := offset\<rparr> else fd2);
          fd4 = fold (\<lambda>p. setDot (fst p) (snd p - offset) True DotNORMAL) dotsToAdd fd3
      in if 0 \<le> barreString then setBarre barreString (-1) 1 fd4 else fd4)"

section \<open>Serialization\<close>

subsection \<open>Name tables\<close>

definition markerToChar :: "FretMarkerType \<Rightarrow> char" where
  "markerToChar t =
     (case t of MarkerCIRCLE \<Rightarrow> CHR ''O'' | MarkerCROSS \<Rightarrow> CHR ''X'' | MarkerNONE \<Rightarrow> CHR 0x00)"

definition markerTypeNameMap :: "(FretMarkerType \<times> string) list" where
  "markerTypeNameMap =
     [(MarkerCIRCLE, ''circle''), (MarkerCROSS, ''cross''), (MarkerNONE, ''none'')]"

definition markerTypeToName :: "FretMarkerType \<Rightarrow> string" where
  "markerTypeToName t =
     (case find (\<lambda>i. fst i = t) markerTypeNameMap of Some i \<Rightarrow> snd i | None \<Rightarrow> [])"

definition nameToMarkerType :: "string \<Rightarrow> FretMarkerType" where
  "nameToMarkerType n =
     (case find (\<lambda>i. snd i = n) markerTypeNameMap of Some i \<Rightarrow> fst i | None \<Rightarrow> MarkerNONE)"

definition dotTypeNameMap :: "(FretDotType \<times> string) list" where
  "dotTypeNameMap =
     [(DotNORMAL, ''normal''), (DotCROSS, ''cross''), (DotSQUARE, ''square''),
      (DotTRIANGLE, ''triangle'')]"

definition dotTypeToName :: "FretDotType \<Rightarrow> string" where
  "dotTypeToName t =
     (case find (\<lambda>i. fst i = t) dotTypeNameMap of Some i \<Rightarrow> snd i | None \<Rightarrow> [])"

definition nameToDotType :: "string \<Rightarrow> FretDotType" where
  "nameToDotType n =
     (case find (\<lambda>i. snd i = n) dotTypeNameMap of Some i \<Rightarrow> fst i | None \<Rightarrow> DotNORMAL)"

subsection \<open>Documents\<close>

text \<open>
  The XML that the writers emit and the readers consume, as trees. In the current format
  a string element holds a marker name and dots (fret attribute, type name); a barre
  element holds the attributes start and end and the fret as content.
\<close>

datatype new_item = NewMarker string | NewDot int string | NewFingering | NewUnknown

datatype new_elem = NewString int "new_item list" | NewBarre int int int | NewOther

text \<open>
  In the legacy format a string element holds a marker as a character code and bare
  dot frets, and the barre is one boolean tag. The property tags \<open>strings\<close>, \<open>frets\<close>
  and \<open>fretOffset\<close> reach \<^verbatim>\<open>setProperty\<close>; \<open>TagOther\<close> stands for the tags that leave
  the three maps alone (nut, orientation, magnification, harmony, base properties).
\<close>

datatype old_item = OldDot int | OldMarker int | OldUnknown

datatype doc_elem =
    TagFretDiagram "new_elem list"
  | TagStrings int
  | TagFrets int
  | TagFretOffset int
  | TagString int "old_item list"
  | TagBarre bool
  | TagOther

subsection \<open>The current format\<close>

definition dotExists :: "Dot list \<Rightarrow> bool" where
  "dotExists allDots = (find dot_exists allDots \<noteq> None)"

definition writeNew_string :: "FretDiagram \<Rightarrow> int \<Rightarrow> new_elem list" where
  "writeNew_string d i =
     (let m = marker d i; allDots = dot d i 0 in
      if \<not> dotExists allDots \<and> \<not> marker_exists m then []
      else [NewString i
              ((if marker_exists m then [NewMarker (markerTypeToName (mtype m))] else []) @
               map (\<lambda>x. NewDot (fret x) (dotTypeToName (dtype x))) (filter dot_exists allDots))])"

definition writeNew_barre :: "FretDiagram \<Rightarrow> int \<Rightarrow> new_elem list" where
  "writeNew_barre d f =
     (let b = barre d f in
      if \<not> barre_exists b then [] else [NewBarre (startString b) (endString b) f])"

definition writeNew :: "FretDiagram \<Rightarrow> new_elem list" where
  "writeNew d =
     concat (map (writeNew_string d) [0..strings d - 1]) @
     concat (map (writeNew_barre d) [1..frets d])"

fun readNew_item :: "int \<Rightarrow> new_item \<Rightarrow> FretDiagram \<Rightarrow> FretDiagram" where
  "readNew_item no (NewDot f name) d = setDot no f True (nameToDotType name) d"
| "readNew_item no (NewMarker name) d = setMarker no (nameToMarkerType name) d"
| "readNew_item no NewFingering d = d"
| "readNew_item no NewUnknown d = d"

fun readNew_elem :: "new_elem \<Rightarrow> FretDiagram \<Rightarrow> FretDiagram" where
  "readNew_elem (NewString no items) d = fold (readNew_item no) items d"
| "readNew_elem (NewBarre start end f) d = setBarre start end f d"
| "readNew_elem NewOther d = d"

definition readNew :: "new_elem list \<Rightarrow> FretDiagram \<Rightarrow> FretDiagram" where
  "readNew elems d = fold readNew_elem elems d"

subsection \<open>The legacy format\<close>

text \<open>
  \<^verbatim>\<open>writeOld\<close>, first loop: the lowest fret that carries a dot and the leftmost string
  with a dot on that fret, both -1 while no dot has been seen.
\<close>

definition lowest_step :: "int \<Rightarrow> Dot \<Rightarrow> int \<times> int \<Rightarrow> int \<times> int" where
  "lowest_step i x acc =
     (if dot_exists x then
        (if fret x < fst acc \<or> fst acc = -1 then (fret x, i)
         else if fret x = fst acc \<and> (i < snd acc \<or> snd acc = -1) then (fst acc, i)
         else acc)
      else acc)"

definition lowest_string :: "FretDiagram \<Rightarrow> int \<Rightarrow> int \<times> int \<Rightarrow> int \<times> int" where
  "lowest_string d i acc =
     (let allDots = dot d i 0 in
      if \<not> dotExists allDots then acc else fold (lowest_step i) allDots acc)"

definition lowestDot :: "FretDiagram \<Rightarrow> int \<times> int" where
  "lowestDot d = fold (lowest_string d) [0..strings d - 1] (-1, -1)"

text \<open>
  Second loop: the first barre in map order that lies on or below the lowest dotted fret,
  is open-ended and does not start right of the leftmost lowest dot on that same fret.
  The result is (barreStartString, barreFret), (-1, -1) when there is none.
\<close>

fun findBarre :: "int \<Rightarrow> int \<Rightarrow> Barre intmap \<Rightarrow> int \<times> int" where
  "findBarre lowestDotFret furthestLeftLowestDot [] = (-1, -1)"
| "findBarre lowestDotFret furthestLeftLowestDot (e # es) =
     (if barre_exists (snd e) \<and> fst e \<le> lowestDotFret \<and> endString (snd e) = -1 \<and>
         \<not> (fst e = lowestDotFret \<and> furthestLeftLowestDot < startString (snd e))
      then (startString (snd e), fst e)
      else findBarre lowestDotFret furthestLeftLowestDot es)"

definition writeOld_barre :: "FretDiagram \<Rightarrow> int \<times> int" where
  "writeOld_barre d = findBarre (fst (lowestDot d)) (snd (lowestDot d)) (barres d)"

definition writeOld_string :: "FretDiagram \<Rightarrow> int \<Rightarrow> int \<Rightarrow> int \<Rightarrow> doc_elem list" where
  "writeOld_string d barreStartString barreFret i =
     (let m = marker d i; allDots = dot d i 0 in
      if \<not> dotExists allDots \<and> \<not> marker_exists m \<and> i \<noteq> barreStartString then []
      else [TagString i
              ((if marker_exists m then [OldMarker (of_char (markerToChar (mtype m)))] else []) @
               map (\<lambda>x. OldDot (fret x))
                 (filter (\<lambda>x. dot_exists x \<and> \<not> (i = barreStartString \<and> fret x = barreFret))
                    allDots) @
               (if barreStartString = i then [OldDot barreFret] else []))])"

definition writeOld :: "FretDiagram \<Rightarrow> doc_elem list" where
  "writeOld d =
     (let barreStartString = fst (writeOld_barre d); barreFret = snd (writeOld_barre d) in
      concat (map (writeOld_string d barreStartString barreFret) [0..strings d - 1]) @
      (if 0 < barreFret then [TagBarre True] else []))"

text \<open>
  \<^verbatim>\<open>read\<close>: the loop over the child elements carries the diagram and the two flags
  \<open>hasBarre\<close> and \<open>haveReadNew\<close>; once the current-format block has been read every
  later element is skipped.
\<close>

fun read_item :: "int \<Rightarrow> old_item \<Rightarrow> FretDiagram \<Rightarrow> FretDiagram" where
  "read_item no (OldDot f) d = setDot no f False DotNORMAL d"
| "read_item no (OldMarker c) d =
     setMarker no (if c = of_char (CHR ''X'') then MarkerCROSS else MarkerCIRCLE) d"
| "read_item no OldUnknown d = d"

fun read_elem :: "doc_elem \<Rightarrow> FretDiagram \<times> bool \<times> bool \<Rightarrow> FretDiagram \<times> bool \<times> bool" where
  "read_elem e (d, hasBarre, haveReadNew) =
     (if haveReadNew then (d, hasBarre, haveReadNew)
      else (case e of
              TagFretDiagram elems \<Rightarrow> (readNew elems d, hasBarre, True)
            | TagStrings n \<Rightarrow> (setStrings n d, hasBarre, haveReadNew)
            | TagFrets n \<Rightarrow> (d\<lparr>frets := n\<rparr>, hasBarre, haveReadNew)
            | TagFretOffset n \<Rightarrow> (d\<lparr>fretOffset := n\<rparr>, hasBarre, haveReadNew)
            | TagString no items \<Rightarrow> (fold (read_item no) items d, hasBarre, haveReadNew)
            | TagBarre v \<Rightarrow> (d, v, haveReadNew)
            | TagOther \<Rightarrow> (d, hasBarre, haveReadNew)))"

text \<open>The closing search of \<^verbatim>\<open>read\<close>: the first existing dot in string order.\<close>

fun firstDot :: "FretDiagram \<Rightarrow> int list \<Rightarrow> (int \<times> int) option" where
  "firstDot d [] = None"
| "firstDot d (s # ss) =
     (case find dot_exists (dot d s 0) of
        Some x \<Rightarrow> Some (s, fret x)
      | None \<Rightarrow> firstDot d ss)"

definition read :: "doc_elem list \<Rightarrow> FretDiagram \<Rightarrow> FretDiagram" where
  "read elems d0 =
     (let r = fold read_elem elems (d0, False, False); d = fst r; hasBarre = fst (snd r) in
      if hasBarre then
        (case firstDot d [0..strings d - 1] of
           Some p \<Rightarrow> setBarre (fst p) (-1) (snd p) d
         | None \<Rightarrow> d)
      else d)"

section \<open>Sequences of mutations\<close>

text \<open>The public calls that change the three maps, and a run of such calls.\<close>

datatype mutation =
    SetDot int int bool FretDotType
  | SetMarker int FretMarkerType
  | SetBarre int int int
  | SetBarreToggle int int bool
  | SetStrings int
  | Clear
  | ReadNew "new_elem list"
  | Read "doc_elem list"

fun apply_mutation :: "mutation \<Rightarrow> FretDiagram \<Rightarrow> FretDiagram" where
  "apply_mutation (SetDot s f add dt) d = setDot s f add dt d"
| "apply_mutation (SetMarker s mt) d = setMarker s mt d"
| "apply_mutation (SetBarre ss es f) d = setBarre ss es f d"
| "apply_mutation (SetBarreToggle s f add) d = setBarre_toggle s f add d"
| "apply_mutation (SetStrings n) d = setStrings n d"
| "apply_mutation Clear d = clear d"
| "apply_mutation (ReadNew elems) d = readNew elems d"
| "apply_mutation (Read elems) d = read elems d"

definition run :: "mutation list \<Rightarrow> FretDiagram \<Rightarrow> FretDiagram" where
  "run ms d = fold apply_mutation ms d"

section \<open>Auxiliary notions for the statements\<close>

text \<open>
  What \<^verbatim>\<open>removeDot\<close> leaves under a key: nothing when the vector has become empty,
  the vector otherwise.
\<close>

definition prune :: "'a list \<Rightarrow> 'a list option" where
  "prune xs = (if xs = [] then None else Some xs)"

text \<open>
  What \<^verbatim>\<open>removeDot(s, f)\<close> keeps of the dots of a string: for a positive fret the
  existing dots on the other frets, nothing otherwise.
\<close>

definition dots_kept :: "int \<Rightarrow> Dot list \<Rightarrow> Dot list" where
  "dots_kept f xs = (if 0 < f then filter (\<lambda>x. dot_exists x \<and> fret x \<noteq> f) xs else [])"

text \<open>Every key of the dots map is a string of the diagram.\<close>

definition dots_in_range :: "FretDiagram \<Rightarrow> bool" where
  "dots_in_range d = (\<forall>e \<in> set (dots d). 0 \<le> fst e \<and> fst e < strings d)"

text \<open>Every key of the dots map holds a vector that is not empty.\<close>

definition dots_nonempty :: "FretDiagram \<Rightarrow> bool" where
  "dots_nonempty d = (\<forall>e \<in> set (dots d). snd e \<noteq> [])"

text \<open>
  How one mutation may change the dots map when it keeps the string count: an entry of
  the new map is an entry of the old one, or it is a non-empty vector under a key that
  was present before or is a string of the diagram.
\<close>

definition dots_step :: "FretDiagram \<Rightarrow> FretDiagram \<Rightarrow> bool" where
  "dots_step d d' =
     (strings d' = strings d \<and>
      (\<forall>e \<in> set (dots d').
         e \<in> set (dots d) \<or>
         (snd e \<noteq> [] \<and> (fst e \<in> fst ` set (dots d) \<or> (0 \<le> fst e \<and> fst e < strings d)))))"

text \<open>
  The pattern of \<^verbatim>\<open>createFromString\<close> read as the spec words it: the largest digit of
  the pattern (-1 when it has none), and the dots it records, one (string, digit) pair for
  each digit, in string order.
\<close>

fun maxDigit :: "string \<Rightarrow> int" where
  "maxDigit [] = -1"
| "maxDigit (c # cs) = max (digitValue c) (maxDigit cs)"

fun pattern_dots :: "int \<Rightarrow> string \<Rightarrow> (int \<times> int) list" where
  "pattern_dots i [] = []"
| "pattern_dots i (c # cs) =
     (if digitValue c \<noteq> -1 then [(i, digitValue c)] else []) @ pattern_dots (i + 1) cs"

text \<open>
  The diagrams that the current format carries in full: the three maps are in key order;
  every dots key is a string of the diagram and holds existing dots on pairwise different
  frets, at least one; every markers key is a string of the diagram; every barre sits on
  a fret from 1 to the fret count, starts on a string of the diagram and ends on one or
  is open.
\<close>

definition roundtrip_wf :: "FretDiagram \<Rightarrow> bool" where
  "roundtrip_wf d =
     (ordered (dots d) \<and> ordered (markers d) \<and> ordered (barres d) \<and>
      (\<forall>e \<in> set (dots d).
         0 \<le> fst e \<and> fst e < strings d \<and> snd e \<noteq> [] \<and>
         (\<forall>x \<in> set (snd e). dot_exists x) \<and> distinct (map fret (snd e))) \<and>
      (\<forall>e \<in> set (markers d). 0 \<le> fst e \<and> fst e < strings d) \<and>
      (\<forall>e \<in> set (barres d).
         1 \<le> fst e \<and> fst e \<le> frets d \<and>
         0 \<le> startString (snd e) \<and> startString (snd e) < strings d \<and>
         -1 \<le> endString (snd e) \<and> endString (snd e) < strings d))"

text \<open>All three maps of a diagram are in key order.\<close>

definition ordered3 :: "FretDiagram \<Rightarrow> bool" where
  "ordered3 d = (ordered (dots d) \<and> ordered (markers d) \<and> ordered (barres d))"

text \<open>
  The words of the legacy barre rule. String \<open>i\<close> of the diagram carries an existing dot
  on fret \<open>f\<close>; \<open>L\<close> is the lowest fret that carries a dot; \<open>l\<close> is the leftmost string
  with a dot on fret \<open>L\<close>; and a barre \<open>b\<close> on fret \<open>f\<close> qualifies for the legacy flag:
  it exists, has an open end, sits on or below the lowest dotted fret and, when it sits on
  that fret, does not start right of the leftmost dot there.
\<close>

definition dotted :: "FretDiagram \<Rightarrow> int \<Rightarrow> int \<Rightarrow> bool" where
  "dotted d i f =
     (0 \<le> i \<and> i < strings d \<and> (\<exists>x \<in> set (dot d i 0). dot_exists x \<and> fret x = f))"

definition lowest_fret :: "FretDiagram \<Rightarrow> int \<Rightarrow> bool" where
  "lowest_fret d L = ((\<exists>i. dotted d i L) \<and> (\<forall>i f. dotted d i f \<longrightarrow> L \<le> f))"

definition leftmost_on :: "FretDiagram \<Rightarrow> int \<Rightarrow> int \<Rightarrow> bool" where
  "leftmost_on d L l = (dotted d l L \<and> (\<forall>i. dotted d i L \<longrightarrow> l \<le> i))"

definition qualifies :: "FretDiagram \<Rightarrow> int \<Rightarrow> Barre \<Rightarrow> bool" where
  "qualifies d f b =
     (barre_exists b \<and> endString b = -1 \<and>
      (\<exists>L l. lowest_fret d L \<and> leftmost_on d L l \<and> f \<le> L \<and> \<not> (f = L \<and> l < startString b)))"

text \<open>
  The state of the first loop of \<^verbatim>\<open>writeOld\<close> after it has seen the existing dots
  \<open>S\<close>, as (string, fret) pairs: both values -1 while \<open>S\<close> is empty, the least fret of
  \<open>S\<close> and the least string on it otherwise.
\<close>

definition lowest_of :: "(int \<times> int) set \<Rightarrow> int \<times> int \<Rightarrow> bool" where
  "lowest_of S acc =
     ((S = {} \<and> acc = (-1, -1)) \<or>
      ((snd acc, fst acc) \<in> S \<and>
       (\<forall>p \<in> S. fst acc \<le> snd p \<and> (snd p = fst acc \<longrightarrow> snd acc \<le> fst p))))"

text \<open>
  The test of the second loop of \<^verbatim>\<open>writeOld\<close> on one entry of the barres map, for the
  values \<open>lo\<close> and \<open>le\<close> that the first loop has found.
\<close>

definition legacy_cond :: "int \<Rightarrow> int \<Rightarrow> int \<times> Barre \<Rightarrow> bool" where
  "legacy_cond lo le e =
     (barre_exists (snd e) \<and> fst e \<le> lo \<and> endString (snd e) = -1 \<and>
      \<not> (fst e = lo \<and> le < startString (snd e)))"

text \<open>
  A legacy document body: elements other than the barre flag and the nested block of the
  current format.
\<close>

fun plain_elem :: "doc_elem \<Rightarrow> bool" where
  "plain_elem (TagFretDiagram es) = False"
| "plain_elem (TagBarre v) = False"
| "plain_elem el = True"

definition legacy_body :: "doc_elem list \<Rightarrow> bool" where
  "legacy_body doc = list_all plain_elem doc"

section \<open>Facts about the ordered maps\<close>

lemma map_of_map_assign: "map_of (map_assign k v m) = (map_of m)(k \<mapsto> v)"
  by (induction m) (auto simp: fun_eq_iff)

lemma map_of_map_erase: "map_of (map_erase k m) = (map_of m)(k := None)"
  by (induction m) (auto simp: map_erase_def fun_eq_iff)

lemma set_map_assign_keys: "fst ` set (map_assign k v m) = insert k (fst ` set m)"
  by (induction m) auto

lemma ordered_Nil: "ordered []"
  by (simp add: ordered_def)

lemma ordered_map_assign: "ordered m \<Longrightarrow> ordered (map_assign k v m)"
proof (induction m)
  case Nil
  then show ?case by (simp add: ordered_def)
next
  case (Cons e es)
  have keys: "fst ` set (map_assign k v es) = insert k (fst ` set es)"
    by (rule set_map_assign_keys)
  from Cons show ?case
    by (auto simp: ordered_def keys)
qed

lemma ordered_filter: "ordered m \<Longrightarrow> ordered (filter P m)"
  by (induction m) (auto simp: ordered_def)

lemma ordered_map_erase: "ordered m \<Longrightarrow> ordered (map_erase k m)"
  by (simp add: map_erase_def ordered_filter)



lemma ordered_map_of_eq:
  "ordered m \<Longrightarrow> ordered m' \<Longrightarrow> map_of m = map_of m' \<Longrightarrow> m = m'"
proof (induction m arbitrary: m')
  case Nil
  show ?case
  proof (cases m')
    case Nil
    then show ?thesis by simp
  next
    case (Cons e' es')
    from Nil.prems(3) have "map_of [] (fst e') = map_of m' (fst e')" by (rule fun_cong)
    then show ?thesis using Cons by (cases e') simp
  qed
next
  case (Cons e es)
  obtain k v where e: "e = (k, v)" by (cases e)
  have "m' \<noteq> []"
  proof
    assume "m' = []"
    moreover from Cons.prems(3) have "map_of (e # es) k = map_of m' k" by (rule fun_cong)
    ultimately show False by (simp add: e)
  qed
  then obtain e' es' where m': "m' = e' # es'"
    by (cases m') auto
  obtain k' v' where e': "e' = (k', v')" by (cases e')
  have lt: "\<forall>a \<in> fst ` set es. k < a" and lt': "\<forall>a \<in> fst ` set es'. k' < a"
    using Cons.prems(1,2) by (auto simp: ordered_def e e' m')
  have none: "map_of es k = None" "map_of es' k' = None"
    using lt lt' by (auto simp: map_of_eq_None_iff)
  have kk: "k = k'"
  proof (rule ccontr)
    assume neq: "k \<noteq> k'"
    from Cons.prems(3) have a: "map_of es' k = Some v" and b: "map_of es k' = Some v'"
      using neq by (auto simp: e e' m' fun_eq_iff split: if_splits)
    from a have "k \<in> fst ` set es'" by (metis map_of_eq_None_iff option.distinct(1))
    moreover from b have "k' \<in> fst ` set es" by (metis map_of_eq_None_iff option.distinct(1))
    ultimately show False using lt lt' by force
  qed
  have vv: "v = v'"
    using Cons.prems(3) kk by (auto simp: e e' m' fun_eq_iff split: if_splits)
  have "map_of es = map_of es'"
  proof
    fix x
    show "map_of es x = map_of es' x"
    proof (cases "x = k")
      case True
      then show ?thesis using none kk by simp
    next
      case False
      then show ?thesis using Cons.prems(3) kk by (auto simp: e e' m' fun_eq_iff split: if_splits)
    qed
  qed
  moreover have "ordered es" "ordered es'"
    using Cons.prems(1,2) by (auto simp: ordered_def m')
  ultimately have "es = es'" using Cons.IH by blast
  then show ?case by (simp add: e e' m' kk vv)
qed

section \<open>Markers of type NONE\<close>

text \<open>
  C1 (as stated, refuted): on a fresh diagram of six strings \<^verbatim>\<open>setMarker(0, NONE)\<close>
  leaves the markers map with an entry at key 0, and that entry has type NONE.
\<close>

theorem setMarker_none_counterexample:
  "markers (setMarker 0 MarkerNONE (newDiagram 6 4)) = [(0, Marker MarkerNONE)]"
  by (simp add: setMarker_def newDiagram_def)

text \<open>
  C1 (amended): for every in-range string \<open>s\<close>, \<^verbatim>\<open>setMarker(s, NONE)\<close> stores a marker
  of type NONE at key \<open>s\<close> instead of removing the key; the accessor \<^verbatim>\<open>marker(s)\<close>
  then reports a marker that does not exist, the entries at the other keys, the dots and
  the barres are untouched, and a marker that the accessor reports as existing is a
  CIRCLE or a CROSS.
\<close>

theorem setMarker_none_stored:
  assumes "0 \<le> s" and "s < strings d"
  shows "map_of (markers (setMarker s MarkerNONE d)) s = Some (Marker MarkerNONE)
    \<and> \<not> marker_exists (marker (setMarker s MarkerNONE d) s)
    \<and> (\<forall>k. k \<noteq> s \<longrightarrow> map_of (markers (setMarker s MarkerNONE d)) k = map_of (markers d) k)
    \<and> dots (setMarker s MarkerNONE d) = dots d
    \<and> barres (setMarker s MarkerNONE d) = barres d
    \<and> (\<forall>e k. marker_exists (marker e k) \<longrightarrow>
          mtype (marker e k) = MarkerCIRCLE \<or> mtype (marker e k) = MarkerCROSS)"
proof -
  have "mtype m = MarkerCIRCLE \<or> mtype m = MarkerCROSS" if "marker_exists m" for m
    using that by (cases "mtype m") (simp_all add: marker_exists_def)
  then show ?thesis
    using assms by (simp add: setMarker_def map_of_map_assign marker_def marker_exists_def)
qed

theorem setMarker_none_stored_witness:
  "map_of (markers (setMarker 2 MarkerNONE (newDiagram 6 4))) 2 = Some (Marker MarkerNONE)
    \<and> \<not> marker_exists (marker (setMarker 2 MarkerNONE (newDiagram 6 4)) 2)
    \<and> dots (setMarker 2 MarkerNONE (newDiagram 6 4)) = []"
  using setMarker_none_stored [of 2 "newDiagram 6 4"] by (simp add: newDiagram_def)

section \<open>Facts about the helpers and the mutators\<close>

lemma removeBarres_walk_filter:
  "removeBarres_walk s 0 m =
     filter (\<lambda>e. \<not> (barre_exists (snd e) \<and> startString (snd e) \<le> s \<and>
                     (s \<le> endString (snd e) \<or> endString (snd e) = -1))) m"
  by (induction m) auto

lemma filter_dot_all:
  "filter (\<lambda>x. dot_exists x \<and> P x) (dot d s 0) = filter (\<lambda>x. dot_exists x \<and> P x) (map_index (dots d) s)"
  by (simp add: dot_def map_index_def dot_exists_def split: option.splits)

lemma removeDot_fields [simp]:
  "markers (removeDot s f d) = markers d"
  "barres (removeDot s f d) = barres d"
  "strings (removeDot s f d) = strings d"
  "frets (removeDot s f d) = frets d"
  "fretOffset (removeDot s f d) = fretOffset d"
  by (simp_all add: removeDot_def Let_def)

lemma map_index_map_assign [simp]: "map_index (map_assign k v m) k = v"
  by (simp add: map_index_def map_of_map_assign)

lemma dots_removeDot:
  "map_of (dots (removeDot s f d)) =
     (map_of (dots d))(s := prune (if 0 < f
        then filter (\<lambda>x. dot_exists x \<and> fret x \<noteq> f) (map_index (dots d) s) else []))"
  by (auto simp: removeDot_def Let_def prune_def map_of_map_assign map_of_map_erase filter_dot_all fun_eq_iff)


lemma pushDot_fields [simp]:
  "markers (pushDot s x d) = markers d"
  "barres (pushDot s x d) = barres d"
  "strings (pushDot s x d) = strings d"
  "frets (pushDot s x d) = frets d"
  "fretOffset (pushDot s x d) = fretOffset d"
  by (simp_all add: pushDot_def)

lemma dots_pushDot:
  "map_of (dots (pushDot s x d)) = (map_of (dots d))(s \<mapsto> map_index (dots d) s @ [x])"
  by (simp add: pushDot_def map_of_map_assign)

lemma removeBarres_fields [simp]:
  "markers (removeBarres s f d) = markers d"
  "dots (removeBarres s f d) = dots d"
  "strings (removeBarres s f d) = strings d"
  "frets (removeBarres s f d) = frets d"
  "fretOffset (removeBarres s f d) = fretOffset d"
  by (simp_all add: removeBarres_def)

lemma setMarker_fields [simp]:
  "strings (setMarker s t d) = strings d"
  "frets (setMarker s t d) = frets d"
  "fretOffset (setMarker s t d) = fretOffset d"
  by (simp_all add: setMarker_def Let_def)

lemma markers_setMarker:
  "map_of (markers (setMarker s t d)) =
     (if 0 \<le> s \<and> s < strings d then (map_of (markers d))(s \<mapsto> Marker t) else map_of (markers d))"
  by (simp add: setMarker_def Let_def map_of_map_assign)

lemma dots_setMarker:
  "map_of (dots (setMarker s t d)) =
     (if 0 \<le> s \<and> s < strings d \<and> t \<noteq> MarkerNONE then (map_of (dots d))(s := None)
      else map_of (dots d))"
  by (simp add: setMarker_def Let_def dots_removeDot prune_def)

lemma barres_setMarker:
  "barres (setMarker s t d) =
     (if 0 \<le> s \<and> s < strings d \<and> t \<noteq> MarkerNONE then removeBarres_walk s 0 (barres d)
      else barres d)"
  by (simp add: setMarker_def Let_def removeBarres_def)

lemma dot_cong: "map_of (dots d) s = map_of (dots e) s \<Longrightarrow> dot d s f = dot e s f"
  by (simp add: dot_def)

lemma dot_absent: "map_of (dots d) s = None \<Longrightarrow> dot d s f = [Dot 0 DotNORMAL]"
  by (simp add: dot_def)

lemma find_ex: "\<exists>x\<in>set xs. P x \<Longrightarrow> \<exists>y. find P xs = Some y \<and> P y"
  by (induction xs) auto

lemma find_none: "\<forall>x\<in>set xs. \<not> P x \<Longrightarrow> find P xs = None"
  by (induction xs) auto

lemma find_snoc: "find P (xs @ [y]) = (case find P xs of Some x \<Rightarrow> Some x | None \<Rightarrow> if P y then Some y else None)"
  by (induction xs) auto

lemma dot_found:
  assumes "f \<noteq> 0" and "f \<in> fret ` set (map_index (dots d) s)"
  shows "\<exists>x. dot d s f = [x] \<and> fret x = f"
proof (cases "map_of (dots d) s")
  case None
  with assms(2) show ?thesis by (simp add: map_index_def)
next
  case (Some ds)
  with assms(2) have "\<exists>x\<in>set ds. fret x = f" by (auto simp: map_index_def)
  from find_ex[OF this] obtain y where "find (\<lambda>x. fret x = f) ds = Some y" "fret y = f" by blast
  then show ?thesis using assms(1) Some by (simp add: dot_def)
qed

lemma dot_not_found:
  assumes "f \<noteq> 0" and "f \<notin> fret ` set (map_index (dots d) s)"
  shows "dot d s f = [Dot 0 DotNORMAL]"
proof (cases "map_of (dots d) s")
  case None
  then show ?thesis by (simp add: dot_def)
next
  case (Some ds)
  with assms(2) have "\<forall>x\<in>set ds. \<not> fret x = f" by (auto simp: map_index_def)
  from find_none[OF this] show ?thesis using Some assms(1) by (simp add: dot_def)
qed

section \<open>Setting dots\<close>

text \<open>
  C4: for a string \<open>s\<close> in range and a fret \<open>f > 0\<close>, \<^verbatim>\<open>setDot(s, f, add, type)\<close> with
  \<open>add\<close> removes the dot at \<open>(s, f)\<close> when the string holds one (the string keeps its
  other existing dots, and loses its key when none is left) and otherwise appends the dot
  \<open>(f, type)\<close> behind the dots the string holds; markers and barres stay as they are.
  Without \<open>add\<close> the string holds the single dot \<open>(f, type)\<close> afterwards and its marker
  is cleared to NONE; the barres stay. With fret 0 all dots of the string go. After
  \<^verbatim>\<open>setDot(s, f)\<close> the accessor \<^verbatim>\<open>dot(s, f)\<close> returns an existing dot of fret \<open>f\<close>.
\<close>

theorem setDot_behaviour:
  assumes "0 \<le> s" and "s < strings d" and "0 < f"
  shows "(f \<in> fret ` set (map_index (dots d) s) \<longrightarrow>
            map_of (dots (setDot s f True dt d)) =
              (map_of (dots d))(s := prune (filter (\<lambda>x. dot_exists x \<and> fret x \<noteq> f) (map_index (dots d) s))))
    \<and> (f \<notin> fret ` set (map_index (dots d) s) \<longrightarrow>
            map_of (dots (setDot s f True dt d)) =
              (map_of (dots d))(s \<mapsto> map_index (dots d) s @ [Dot f dt])
          \<and> dot (setDot s f True dt d) s f = [Dot f dt])
    \<and> markers (setDot s f True dt d) = markers d
    \<and> barres (setDot s f True dt d) = barres d
    \<and> map_of (dots (setDot s f False dt d)) = (map_of (dots d))(s \<mapsto> [Dot f dt])
    \<and> map_of (markers (setDot s f False dt d)) = (map_of (markers d))(s \<mapsto> Marker MarkerNONE)
    \<and> \<not> marker_exists (marker (setDot s f False dt d) s)
    \<and> barres (setDot s f False dt d) = barres d
    \<and> dot (setDot s f False dt d) s f = [Dot f dt]
    \<and> dot_exists (Dot f dt)
    \<and> map_of (dots (setDot s 0 add dt d)) = (map_of (dots d))(s := None)
    \<and> markers (setDot s 0 add dt d) = markers d
    \<and> barres (setDot s 0 add dt d) = barres d"
proof -
  have fz: "f \<noteq> 0" using assms by simp
  have A: "map_of (dots (setDot s f True dt d)) =
              (map_of (dots d))(s := prune (filter (\<lambda>x. dot_exists x \<and> fret x \<noteq> f) (map_index (dots d) s)))"
    if "f \<in> fret ` set (map_index (dots d) s)"
  proof -
    from dot_found[OF fz that] obtain x where x: "dot d s f = [x]" "fret x = f" by blast
    then have "dot_exists x" using assms by (simp add: dot_exists_def)
    then show ?thesis using assms x by (simp add: setDot_def dots_removeDot)
  qed
  have B: "map_of (dots (setDot s f True dt d)) = (map_of (dots d))(s \<mapsto> map_index (dots d) s @ [Dot f dt])"
    if "f \<notin> fret ` set (map_index (dots d) s)"
    using assms dot_not_found[OF fz that] by (simp add: setDot_def dots_pushDot dot_exists_def)
  have B2: "dot (setDot s f True dt d) s f = [Dot f dt]"
    if "f \<notin> fret ` set (map_index (dots d) s)"
  proof -
    from that have "\<forall>x\<in>set (map_index (dots d) s). \<not> fret x = f" by auto
    from find_none[OF this] show ?thesis
      using fz by (simp add: dot_def B[OF that] find_snoc)
  qed
  have C: "markers (setDot s f True dt d) = markers d \<and> barres (setDot s f True dt d) = barres d"
    using assms by (auto simp: setDot_def split: list.splits)
  have D: "map_of (dots (setDot s f False dt d)) = (map_of (dots d))(s \<mapsto> [Dot f dt])"
    using assms by (simp add: setDot_def dots_setMarker dots_pushDot map_of_map_assign)
  have E: "map_of (markers (setDot s f False dt d)) = (map_of (markers d))(s \<mapsto> Marker MarkerNONE)"
    using assms by (simp add: setDot_def markers_setMarker)
  have F: "\<not> marker_exists (marker (setDot s f False dt d) s)"
    by (simp add: marker_def E marker_exists_def)
  have G: "barres (setDot s f False dt d) = barres d"
    using assms by (simp add: setDot_def barres_setMarker)
  have H: "dot (setDot s f False dt d) s f = [Dot f dt]"
    using fz by (simp add: dot_def D)
  have I: "dot_exists (Dot f dt)" using assms by (simp add: dot_exists_def)
  have J: "map_of (dots (setDot s 0 add dt d)) = (map_of (dots d))(s := None)"
    by (simp add: setDot_def dots_removeDot prune_def)
  have K: "markers (setDot s 0 add dt d) = markers d \<and> barres (setDot s 0 add dt d) = barres d"
    by (simp add: setDot_def)
  show ?thesis using A B B2 C D E F G H I J K by blast
qed


theorem setDot_behaviour_witness:
  "dots (setDot 2 3 True DotCROSS (newDiagram 6 4)) = [(2, [Dot 3 DotCROSS])]
   \<and> dots (setDot 2 3 True DotCROSS ((newDiagram 6 4)\<lparr>dots := [(2, [Dot 3 DotNORMAL])]\<rparr>)) = []
   \<and> dot (setDot 2 3 False DotCROSS (newDiagram 6 4)) 2 3 = [Dot 3 DotCROSS]
   \<and> map_of (dots (setDot 2 0 False DotCROSS ((newDiagram 6 4)\<lparr>dots := [(2, [Dot 3 DotNORMAL])]\<rparr>))) 2 = None"
  using setDot_behaviour [where s = 2 and d = "newDiagram 6 4" and f = 3 and dt = DotCROSS]
    setDot_behaviour [where s = 2 and d = "(newDiagram 6 4)\<lparr>dots := [(2, [Dot 3 DotNORMAL])]\<rparr>"
      and f = 3 and dt = DotCROSS]
  by (simp add: newDiagram_def setDot_def setMarker_def pushDot_def removeDot_def dot_def
      map_index_def dot_exists_def map_erase_def)

lemma dots_removeDot_kept:
  "map_of (dots (removeDot s f d)) = (map_of (dots d))(s := prune (dots_kept f (map_index (dots d) s)))"
  by (simp add: dots_removeDot dots_kept_def)

lemma removeMarker_fields [simp]:
  "dots (removeMarker s d) = dots d"
  "barres (removeMarker s d) = barres d"
  "strings (removeMarker s d) = strings d"
  "frets (removeMarker s d) = frets d"
  "fretOffset (removeMarker s d) = fretOffset d"
  by (simp_all add: removeMarker_def)

lemma marker_cong: "map_of (markers d) s = map_of (markers e) s \<Longrightarrow> marker d s = marker e s"
  by (simp add: marker_def)

lemma step_fields [simp]:
  "barres (removeDotsMarkers_step f k d) = barres d"
  "strings (removeDotsMarkers_step f k d) = strings d"
  "frets (removeDotsMarkers_step f k d) = frets d"
  "fretOffset (removeDotsMarkers_step f k d) = fretOffset d"
  by (simp_all add: removeDotsMarkers_step_def Let_def)

lemma step_dots:
  "map_of (dots (removeDotsMarkers_step f k d)) =
     (map_of (dots d))(k := prune (dots_kept f (map_index (dots d) k)))"
  by (simp add: removeDotsMarkers_step_def Let_def dots_removeDot_kept)

lemma step_markers:
  "map_of (markers (removeDotsMarkers_step f k d)) =
     (if marker_exists (marker d k) then (map_of (markers d))(k := None) else map_of (markers d))"
  by (simp add: removeDotsMarkers_step_def Let_def removeMarker_def map_of_map_erase marker_def)

lemma fold_step_fields [simp]:
  "barres (fold (removeDotsMarkers_step f) ks d) = barres d"
  "strings (fold (removeDotsMarkers_step f) ks d) = strings d"
  "frets (fold (removeDotsMarkers_step f) ks d) = frets d"
  "fretOffset (fold (removeDotsMarkers_step f) ks d) = fretOffset d"
  by (induction ks arbitrary: d; simp)+

lemma fold_step_dots:
  "distinct ks \<Longrightarrow>
   map_of (dots (fold (removeDotsMarkers_step f) ks d)) k =
     (if k \<in> set ks then prune (dots_kept f (map_index (dots d) k)) else map_of (dots d) k)"
proof (induction ks arbitrary: d)
  case Nil
  then show ?case by simp
next
  case (Cons a ks)
  show ?case
  proof (cases "k = a")
    case True
    with Cons show ?thesis by (simp add: step_dots)
  next
    case False
    then have "map_index (dots (removeDotsMarkers_step f a d)) k = map_index (dots d) k"
      by (simp add: map_index_def step_dots)
    with Cons False show ?thesis by (simp add: step_dots)
  qed
qed

lemma fold_step_markers:
  "distinct ks \<Longrightarrow>
   map_of (markers (fold (removeDotsMarkers_step f) ks d)) k =
     (if k \<in> set ks \<and> marker_exists (marker d k) then None else map_of (markers d) k)"
proof (induction ks arbitrary: d)
  case Nil
  then show ?case by simp
next
  case (Cons a ks)
  show ?case
  proof (cases "k = a")
    case True
    with Cons show ?thesis by (simp add: step_markers)
  next
    case False
    then have "marker (removeDotsMarkers_step f a d) k = marker d k"
      by (simp add: marker_def step_markers)
    with Cons False show ?thesis by (simp add: step_markers)
  qed
qed

lemma removeDotsMarkers_fields [simp]:
  "barres (removeDotsMarkers ss es f d) = barres d"
  "strings (removeDotsMarkers ss es f d) = strings d"
  "frets (removeDotsMarkers ss es f d) = frets d"
  "fretOffset (removeDotsMarkers ss es f d) = fretOffset d"
  by (simp_all add: removeDotsMarkers_def)

lemma removeDotsMarkers_dots:
  "ss \<noteq> -1 \<Longrightarrow>
   map_of (dots (removeDotsMarkers ss es f d)) k =
     (if ss \<le> k \<and> k \<le> (if es = -1 then strings d else es)
      then prune (dots_kept f (map_index (dots d) k)) else map_of (dots d) k)"
  by (simp add: removeDotsMarkers_def fold_step_dots)

lemma removeDotsMarkers_markers:
  "ss \<noteq> -1 \<Longrightarrow>
   map_of (markers (removeDotsMarkers ss es f d)) k =
     (if ss \<le> k \<and> k \<le> (if es = -1 then strings d else es) \<and> marker_exists (marker d k)
      then None else map_of (markers d) k)"
  by (simp add: removeDotsMarkers_def fold_step_markers)

section \<open>Setting markers\<close>

text \<open>
  C5: for a string \<open>s\<close> in range and a marker type \<open>t\<close> other than NONE,
  \<^verbatim>\<open>setMarker(s, t)\<close> stores the marker \<open>t\<close> on \<open>s\<close> and leaves the markers of the
  other strings alone; it removes all dots of \<open>s\<close> (the key goes, so \<^verbatim>\<open>dot(s, f)\<close>
  returns the sentinel, which does not exist, for every \<open>f\<close>) and leaves the dots of the
  other strings alone; and the barres map keeps, in place, exactly the entries that are
  not an existing barre with \<open>startString \<le> s\<close> and (\<open>endString \<ge> s\<close> or
  \<open>endString = -1\<close>).
\<close>

theorem setMarker_behaviour:
  assumes "0 \<le> s" and "s < strings d" and "t \<noteq> MarkerNONE"
  shows "map_of (markers (setMarker s t d)) = (map_of (markers d))(s \<mapsto> Marker t)
    \<and> marker (setMarker s t d) s = Marker t
    \<and> map_of (dots (setMarker s t d)) = (map_of (dots d))(s := None)
    \<and> (\<forall>f. dot (setMarker s t d) s f = [Dot 0 DotNORMAL])
    \<and> \<not> dot_exists (Dot 0 DotNORMAL)
    \<and> barres (setMarker s t d) =
        filter (\<lambda>e. \<not> (barre_exists (snd e) \<and> startString (snd e) \<le> s \<and>
                          (s \<le> endString (snd e) \<or> endString (snd e) = -1))) (barres d)"
  using assms
  by (simp add: markers_setMarker dots_setMarker barres_setMarker removeBarres_walk_filter
      marker_def dot_absent dot_exists_def)

theorem setMarker_behaviour_witness:
  "setMarker 2 MarkerCIRCLE
     ((newDiagram 6 4)\<lparr>dots := [(2, [Dot 3 DotNORMAL]), (3, [Dot 1 DotNORMAL])],
        barres := [(1, Barre 0 (-1)), (2, Barre 3 4)]\<rparr>)
   = (newDiagram 6 4)\<lparr>dots := [(3, [Dot 1 DotNORMAL])], markers := [(2, Marker MarkerCIRCLE)],
        barres := [(2, Barre 3 4)]\<rparr>"
  using setMarker_behaviour [where s = 2 and t = MarkerCIRCLE and
      d = "(newDiagram 6 4)\<lparr>dots := [(2, [Dot 3 DotNORMAL]), (3, [Dot 1 DotNORMAL])],
        barres := [(1, Barre 0 (-1)), (2, Barre 3 4)]\<rparr>"]
  by (simp add: newDiagram_def setMarker_def removeDot_def removeBarres_def map_index_def
      map_erase_def barre_exists_def)

section \<open>Arguments out of range\<close>




section \<open>The barre toggle\<close>

text \<open>
  C8 (as stated, refuted): with no barre at the fret, a click on the last string creates
  nothing; and a new barre at fret 1 leaves a dot at fret 2 under it in place.
\<close>

theorem setBarre_toggle_counterexample:
  "setBarre_toggle 5 1 False (newDiagram 6 4) = newDiagram 6 4
   \<and> dots (setBarre_toggle 2 1 False ((newDiagram 6 4)\<lparr>dots := [(3, [Dot 2 DotNORMAL])]\<rparr>))
       = [(3, [Dot 2 DotNORMAL])]"
  by code_simp

text \<open>
  C8 (amended): \<^verbatim>\<open>setBarre(string, fret, add)\<close> splits three ways. With no existing
  barre at the fret: when \<open>0 \<le> string < stringCount - 1\<close> it stores a barre from
  \<open>string\<close> with open end (-1) and, on every string from \<open>string\<close> to \<open>stringCount\<close>,
  removes the dots at that fret (all dots of the string when the fret is not positive;
  a string left without dots loses its key) and erases a marker that exists; when
  \<open>string \<ge> stringCount - 1\<close> it does nothing. With an existing barre at the fret that has
  an open end and starts left of \<open>string\<close>, it sets the end of that barre to \<open>string\<close> and
  touches neither dots nor markers. Otherwise it removes the dots at that fret and the
  existing markers on the strings of the barre's span (from its start to its end, or to
  \<open>stringCount\<close> for an open end) and erases the barre at the fret.
\<close>

theorem setBarre_toggle_behaviour:
  "(\<not> barre_exists (barre d f) \<and> 0 \<le> s \<and> s < strings d - 1 \<longrightarrow>
      barres (setBarre_toggle s f add d) = map_assign f (Barre s (-1)) (barres d)
      \<and> (\<forall>k. map_of (dots (setBarre_toggle s f add d)) k =
            (if s \<le> k \<and> k \<le> strings d then prune (dots_kept f (map_index (dots d) k))
             else map_of (dots d) k))
      \<and> (\<forall>k. map_of (markers (setBarre_toggle s f add d)) k =
            (if s \<le> k \<and> k \<le> strings d \<and> marker_exists (marker d k) then None
             else map_of (markers d) k)))
   \<and> (\<not> barre_exists (barre d f) \<and> strings d - 1 \<le> s \<longrightarrow> setBarre_toggle s f add d = d)
   \<and> (barre_exists (barre d f) \<and> endString (barre d f) = -1 \<and> startString (barre d f) < s \<longrightarrow>
      barres (setBarre_toggle s f add d) = map_assign f (Barre (startString (barre d f)) s) (barres d)
      \<and> dots (setBarre_toggle s f add d) = dots d
      \<and> markers (setBarre_toggle s f add d) = markers d)
   \<and> (barre_exists (barre d f) \<and> \<not> (endString (barre d f) = -1 \<and> startString (barre d f) < s) \<longrightarrow>
      barres (setBarre_toggle s f add d) = map_erase f (barres d)
      \<and> (\<forall>k. map_of (dots (setBarre_toggle s f add d)) k =
            (if startString (barre d f) \<le> k \<and>
                k \<le> (if endString (barre d f) = -1 then strings d else endString (barre d f))
             then prune (dots_kept f (map_index (dots d) k))
             else map_of (dots d) k))
      \<and> (\<forall>k. map_of (markers (setBarre_toggle s f add d)) k =
            (if startString (barre d f) \<le> k \<and>
                k \<le> (if endString (barre d f) = -1 then strings d else endString (barre d f)) \<and>
                marker_exists (marker d k)
             then None else map_of (markers d) k)))"
proof -
  have A: "barres (setBarre_toggle s f add d) = map_assign f (Barre s (-1)) (barres d)
      \<and> (\<forall>k. map_of (dots (setBarre_toggle s f add d)) k =
            (if s \<le> k \<and> k \<le> strings d then prune (dots_kept f (map_index (dots d) k))
             else map_of (dots d) k))
      \<and> (\<forall>k. map_of (markers (setBarre_toggle s f add d)) k =
            (if s \<le> k \<and> k \<le> strings d \<and> marker_exists (marker d k) then None
             else map_of (markers d) k))"
    if "\<not> barre_exists (barre d f)" "0 \<le> s" "s < strings d - 1"
  proof -
    let ?d1 = "d\<lparr>barres := map_assign f (Barre s (-1)) (barres d)\<rparr>"
    have eq: "setBarre_toggle s f add d = removeDotsMarkers s (-1) f ?d1"
      using that by (simp add: setBarre_toggle_def Let_def)
    have s1: "s \<noteq> -1" using that by simp
    have m: "marker ?d1 k = marker d k" for k by (simp add: marker_def)
    show ?thesis
      by (simp add: eq removeDotsMarkers_dots[OF s1] removeDotsMarkers_markers[OF s1] m)
  qed
  have B: "setBarre_toggle s f add d = d" if "\<not> barre_exists (barre d f)" "strings d - 1 \<le> s"
    using that by (simp add: setBarre_toggle_def Let_def)
  have C: "barres (setBarre_toggle s f add d) = map_assign f (Barre (startString (barre d f)) s) (barres d)
      \<and> dots (setBarre_toggle s f add d) = dots d
      \<and> markers (setBarre_toggle s f add d) = markers d"
    if "barre_exists (barre d f)" "endString (barre d f) = -1" "startString (barre d f) < s"
    using that by (simp add: setBarre_toggle_def Let_def)
  have D: "barres (setBarre_toggle s f add d) = map_erase f (barres d)
      \<and> (\<forall>k. map_of (dots (setBarre_toggle s f add d)) k =
            (if startString (barre d f) \<le> k \<and>
                k \<le> (if endString (barre d f) = -1 then strings d else endString (barre d f))
             then prune (dots_kept f (map_index (dots d) k))
             else map_of (dots d) k))
      \<and> (\<forall>k. map_of (markers (setBarre_toggle s f add d)) k =
            (if startString (barre d f) \<le> k \<and>
                k \<le> (if endString (barre d f) = -1 then strings d else endString (barre d f)) \<and>
                marker_exists (marker d k)
             then None else map_of (markers d) k))"
    if "barre_exists (barre d f)" "\<not> (endString (barre d f) = -1 \<and> startString (barre d f) < s)"
  proof -
    have eq: "setBarre_toggle s f add d =
        removeBarre f (removeDotsMarkers (startString (barre d f)) (endString (barre d f)) f d)"
      using that by (auto simp: setBarre_toggle_def Let_def)
    have s1: "startString (barre d f) \<noteq> -1" using that(1) by (simp add: barre_exists_def)
    show ?thesis
      by (simp add: eq removeBarre_def removeDotsMarkers_dots[OF s1] removeDotsMarkers_markers[OF s1])
  qed
  show ?thesis using A B C D by blast
qed


theorem setBarre_toggle_behaviour_witness:
  "barres (setBarre_toggle 2 1 False
       ((newDiagram 6 4)\<lparr>dots := [(3, [Dot 1 DotNORMAL, Dot 2 DotNORMAL])],
          markers := [(4, Marker MarkerCROSS)]\<rparr>)) = [(1, Barre 2 (-1))]
   \<and> map_of (dots (setBarre_toggle 2 1 False
       ((newDiagram 6 4)\<lparr>dots := [(3, [Dot 1 DotNORMAL, Dot 2 DotNORMAL])],
          markers := [(4, Marker MarkerCROSS)]\<rparr>))) 3 = Some [Dot 2 DotNORMAL]
   \<and> map_of (markers (setBarre_toggle 2 1 False
       ((newDiagram 6 4)\<lparr>dots := [(3, [Dot 1 DotNORMAL, Dot 2 DotNORMAL])],
          markers := [(4, Marker MarkerCROSS)]\<rparr>))) 4 = None"
proof -
  define d where "d = (newDiagram 6 4)\<lparr>dots := [(3, [Dot 1 DotNORMAL, Dot 2 DotNORMAL])],
          markers := [(4, Marker MarkerCROSS)]\<rparr>"
  have pre: "\<not> barre_exists (barre d 1) \<and> 0 \<le> (2::int) \<and> 2 < strings d - 1"
    by (simp add: d_def newDiagram_def barre_def barre_exists_def)
  from setBarre_toggle_behaviour [where d = d and f = 1 and s = 2 and add = False] pre
  have b: "barres (setBarre_toggle 2 1 False d) = map_assign 1 (Barre 2 (-1)) (barres d)"
    and dt: "map_of (dots (setBarre_toggle 2 1 False d)) 3 =
            (if 2 \<le> (3::int) \<and> 3 \<le> strings d then prune (dots_kept 1 (map_index (dots d) 3))
             else map_of (dots d) 3)"
    and mk: "map_of (markers (setBarre_toggle 2 1 False d)) 4 =
            (if 2 \<le> (4::int) \<and> 4 \<le> strings d \<and> marker_exists (marker d 4) then None
             else map_of (markers d) 4)"
    by blast+
  have b': "map_assign 1 (Barre 2 (-1)) (barres d) = [(1, Barre 2 (-1))]"
    by (simp add: d_def newDiagram_def)
  have dt': "(if 2 \<le> (3::int) \<and> 3 \<le> strings d then prune (dots_kept 1 (map_index (dots d) 3))
             else map_of (dots d) 3) = Some [Dot 2 DotNORMAL]"
    by (simp add: d_def newDiagram_def prune_def dots_kept_def map_index_def dot_exists_def)
  have mk': "(if 2 \<le> (4::int) \<and> 4 \<le> strings d \<and> marker_exists (marker d 4) then None
             else map_of (markers d) 4) = None"
    by (simp add: d_def newDiagram_def marker_def marker_exists_def)
  show ?thesis
    unfolding d_def [symmetric] by (simp only: b dt mk b' dt' mk')
qed

section \<open>What every mutation keeps of the dots map\<close>

lemma set_map_assign: "set (map_assign k v m) \<subseteq> insert (k, v) (set m)"
  by (induction m) auto

lemma map_assign_twice: "map_assign k v (map_assign k w m) = map_assign k v m"
  by (induction m) auto

lemma dots_step_refl: "dots_step d d"
  by (simp add: dots_step_def)

lemma dots_step_trans: "dots_step d d' \<Longrightarrow> dots_step d' d'' \<Longrightarrow> dots_step d d''"
  unfolding dots_step_def by (auto; force)

lemma dots_step_same: "dots d' = dots d \<Longrightarrow> strings d' = strings d \<Longrightarrow> dots_step d d'"
  by (simp add: dots_step_def)

lemma dots_step_nonempty: "dots_step d d' \<Longrightarrow> dots_nonempty d \<Longrightarrow> dots_nonempty d'"
  unfolding dots_step_def dots_nonempty_def by blast

lemma dots_step_in_range: "dots_step d d' \<Longrightarrow> dots_in_range d \<Longrightarrow> dots_in_range d'"
  unfolding dots_step_def dots_in_range_def by (auto; force)

lemma removeDot_step: "dots_step d (removeDot s f d)"
proof -
  define L where "L = (if 0 < f then filter (\<lambda>x. dot_exists x \<and> fret x \<noteq> f) (dot d s 0) else [])"
  define m1 where "m1 = map_assign s L (dots d)"
  have rd: "dots (removeDot s f d) = (if L = [] then map_erase s m1 else m1)"
    by (simp add: removeDot_def Let_def L_def m1_def)
  have key: "s \<in> fst ` set (dots d)" if "L \<noteq> []"
  proof (rule ccontr)
    assume "s \<notin> fst ` set (dots d)"
    then have "map_of (dots d) s = None" by (simp add: map_of_eq_None_iff)
    then have "L = []" by (simp add: L_def dot_def dot_exists_def)
    with that show False by simp
  qed
  have "e \<in> set (dots d) \<or> (snd e \<noteq> [] \<and> fst e \<in> fst ` set (dots d))"
    if e: "e \<in> set (dots (removeDot s f d))" for e
  proof (cases "L = []")
    case True
    with e rd have "e \<in> set m1" "fst e \<noteq> s" by (auto simp: map_erase_def)
    then show ?thesis using set_map_assign[of s L "dots d"] by (auto simp: m1_def)
  next
    case False
    with e rd have "e \<in> set m1" by simp
    then have "e = (s, L) \<or> e \<in> set (dots d)"
      using set_map_assign[of s L "dots d"] by (auto simp: m1_def)
    then show ?thesis
    proof
      assume "e = (s, L)"
      then have "snd e \<noteq> []" "fst e \<in> fst ` set (dots d)"
        using False key by simp_all
      then show ?thesis by simp
    next
      assume "e \<in> set (dots d)"
      then show ?thesis by simp
    qed
  qed
  then show ?thesis by (auto simp: dots_step_def)
qed

lemma pushDot_step: "0 \<le> s \<Longrightarrow> s < strings d \<Longrightarrow> dots_step d (pushDot s x d)"
  using set_map_assign[of s "map_index (dots d) s @ [x]" "dots d"]
  by (auto simp: dots_step_def pushDot_def)

lemma removeBarres_step: "dots_step d (removeBarres s f d)"
  by (simp add: dots_step_same)

lemma setMarker_step: "dots_step d (setMarker s t d)"
proof -
  have "dots_step (d\<lparr>markers := m\<rparr>) (removeDot s 0 (d\<lparr>markers := m\<rparr>))" for m
    by (rule removeDot_step)
  then have "dots_step d (removeDot s 0 (d\<lparr>markers := m\<rparr>))" for m
    by (simp add: dots_step_def)
  then have "dots_step d (removeBarres s 0 (removeDot s 0 (d\<lparr>markers := m\<rparr>)))" for m
    by (simp add: dots_step_def)
  then show ?thesis by (simp add: setMarker_def Let_def dots_step_same)
qed

lemma setDot_step: "dots_step d (setDot s f add dt d)"
proof (cases "f = 0")
  case True
  then show ?thesis by (simp add: setDot_def removeDot_step)
next
  case f: False
  show ?thesis
  proof (cases "0 \<le> s \<and> s < strings d")
    case False
    then have "(0 \<le> s \<and> s < strings d) = False" by simp
    then have "setDot s f add dt d = d" using f by (simp only: setDot_def if_False)
    then show ?thesis by (simp add: dots_step_refl)
  next
    case r: True
    show ?thesis
    proof (cases add)
      case True
      then show ?thesis using f r
        by (auto simp: setDot_def removeDot_step pushDot_step dots_step_refl split: list.splits)
    next
      case False
      let ?d1 = "d\<lparr>dots := map_assign s [] (dots d)\<rparr>"
      have "dots (pushDot s (Dot f dt) ?d1) = map_assign s [Dot f dt] (dots d)"
        by (simp add: pushDot_def map_assign_twice)
      then have "dots_step d (pushDot s (Dot f dt) ?d1)"
        using r set_map_assign[of s "[Dot f dt]" "dots d"] by (auto simp: dots_step_def)
      then have "dots_step d (setMarker s MarkerNONE (pushDot s (Dot f dt) ?d1))"
        using setMarker_step dots_step_trans by blast
      then show ?thesis using f r False by (simp add: setDot_def)
    qed
  qed
qed

lemma setBarre_step: "dots_step d (setBarre ss es f d)"
  by (simp add: setBarre_def removeBarre_def dots_step_same)

lemma removeDotsMarkers_step_step: "dots_step d (removeDotsMarkers_step f k d)"
proof -
  have "dots_step d (removeDot k f d)" by (rule removeDot_step)
  then show ?thesis
    by (simp add: removeDotsMarkers_step_def Let_def dots_step_def)
qed

lemma fold_dots_step:
  assumes "\<And>x d. dots_step d (g x d)"
  shows "dots_step d (fold g xs d)"
proof (induction xs arbitrary: d)
  case Nil
  show ?case by (simp add: dots_step_refl)
next
  case (Cons x xs)
  have "dots_step d (g x d)" by (rule assms)
  moreover have "dots_step (g x d) (fold g xs (g x d))" by (rule Cons.IH)
  ultimately have "dots_step d (fold g xs (g x d))" by (rule dots_step_trans)
  then show ?case by simp
qed

lemma removeDotsMarkers_dots_step: "dots_step d (removeDotsMarkers ss es f d)"
  by (simp add: removeDotsMarkers_def dots_step_refl fold_dots_step removeDotsMarkers_step_step)

lemma setBarre_toggle_step: "dots_step d (setBarre_toggle s f add d)"
proof -
  have a: "dots_step d (removeDotsMarkers a b f (d\<lparr>barres := m\<rparr>))" for a b m
  proof -
    have "dots_step (d\<lparr>barres := m\<rparr>) (removeDotsMarkers a b f (d\<lparr>barres := m\<rparr>))"
      by (rule removeDotsMarkers_dots_step)
    then show ?thesis by (simp add: dots_step_def)
  qed
  have b: "dots_step d (removeBarre f (removeDotsMarkers a b f d))" for a b
    using removeDotsMarkers_dots_step[of d a b f] by (simp add: dots_step_def removeBarre_def)
  show ?thesis
    by (simp add: setBarre_toggle_def Let_def a b dots_step_refl dots_step_same)
qed

lemma clear_step: "dots_step d (clear d)"
  by (simp add: clear_def dots_step_def)

lemma readNew_item_step: "dots_step d (readNew_item no i d)"
  by (cases i) (simp_all add: setDot_step setMarker_step dots_step_refl)

lemma readNew_elem_step: "dots_step d (readNew_elem e d)"
  by (cases e) (simp_all add: fold_dots_step readNew_item_step setBarre_step dots_step_refl)

lemma readNew_step: "dots_step d (readNew elems d)"
  by (simp add: readNew_def fold_dots_step readNew_elem_step)

lemma read_item_step: "dots_step d (read_item no i d)"
  by (cases i) (simp_all add: setDot_step setMarker_step dots_step_refl)


lemma setStrings_dots_good:
  assumes "\<forall>e\<in>set t. snd e \<noteq> [] \<and> 0 \<le> fst e \<and> fst e < n"
    and "0 \<le> s + difference" and "s + difference < n"
  shows "\<forall>e\<in>set (setStrings_dots difference s ds t). snd e \<noteq> [] \<and> 0 \<le> fst e \<and> fst e < n"
  using assms(1) unfolding setStrings_dots_def
proof (induction ds arbitrary: t)
  case Nil
  then show ?case by simp
next
  case (Cons x ds)
  let ?t' = "map_assign (s + difference) (map_index t (s + difference) @ [x]) t"
  have "\<forall>e\<in>set ?t'. snd e \<noteq> [] \<and> 0 \<le> fst e \<and> fst e < n"
    using set_map_assign[of "s + difference" "map_index t (s + difference) @ [x]" t]
      Cons.prems assms(2,3) by auto
  note step = Cons.IH[OF this]
  show ?case
  proof (cases "dot_exists x")
    case True
    with step show ?thesis by simp
  next
    case False
    with Cons.IH[OF Cons.prems] show ?thesis by simp
  qed
qed

lemma setStrings_string_good:
  assumes "\<forall>e\<in>set (fst acc). snd e \<noteq> [] \<and> 0 \<le> fst e \<and> fst e < n"
    and "s < strings d" and "difference = n - strings d"
  shows "\<forall>e\<in>set (fst (setStrings_string d difference s acc)).
           snd e \<noteq> [] \<and> 0 \<le> fst e \<and> fst e < n"
proof (cases "s + difference < 0")
  case True
  then show ?thesis using assms(1) by (simp add: setStrings_string_def)
next
  case False
  then have "0 \<le> s + difference" "s + difference < n" using assms(2,3) by auto
  from setStrings_dots_good[OF assms(1) this] False show ?thesis
    by (simp add: setStrings_string_def)
qed

lemma setStrings_fold_good:
  assumes "\<forall>e\<in>set (fst acc). snd e \<noteq> [] \<and> 0 \<le> fst e \<and> fst e < n"
    and "\<forall>s\<in>set ks. s < strings d" and "difference = n - strings d"
  shows "\<forall>e\<in>set (fst (fold (setStrings_string d difference) ks acc)).
           snd e \<noteq> [] \<and> 0 \<le> fst e \<and> fst e < n"
  using assms(1,2)
proof (induction ks arbitrary: acc)
  case Nil
  then show ?case by simp
next
  case (Cons k ks)
  from Cons.prems(2) have k: "k < strings d" and ks: "\<forall>s\<in>set ks. s < strings d"
    by simp_all
  have "\<forall>e\<in>set (fst (setStrings_string d difference k acc)).
           snd e \<noteq> [] \<and> 0 \<le> fst e \<and> fst e < n"
    by (rule setStrings_string_good[OF Cons.prems(1) k assms(3)])
  from Cons.IH[OF this ks] show ?case by simp
qed

lemma setStrings_barre_fields [simp]:
  "dots (setStrings_barre difference f d) = dots d"
  "markers (setStrings_barre difference f d) = markers d"
  "strings (setStrings_barre difference f d) = strings d"
  "frets (setStrings_barre difference f d) = frets d"
  "fretOffset (setStrings_barre difference f d) = fretOffset d"
  by (simp_all add: setStrings_barre_def removeBarre_def)

lemma fold_setStrings_barre_fields [simp]:
  "dots (fold (setStrings_barre difference) fs d) = dots d"
  "markers (fold (setStrings_barre difference) fs d) = markers d"
  "strings (fold (setStrings_barre difference) fs d) = strings d"
  "frets (fold (setStrings_barre difference) fs d) = frets d"
  "fretOffset (fold (setStrings_barre difference) fs d) = fretOffset d"
  by (induction fs arbitrary: d; simp)+

lemma setStrings_noop: "n = strings d \<or> n \<le> 0 \<Longrightarrow> setStrings n d = d"
  by (auto simp: setStrings_def)

lemma setStrings_dots:
  "n \<noteq> strings d \<Longrightarrow> 0 < n \<Longrightarrow>
   dots (setStrings n d) = fst (fold (setStrings_string d (n - strings d)) [0..strings d - 1] ([], []))"
  by (simp add: setStrings_def Let_def)

lemma setStrings_strings: "n \<noteq> strings d \<Longrightarrow> 0 < n \<Longrightarrow> strings (setStrings n d) = n"
  by (simp add: setStrings_def Let_def)

lemma setStrings_good:
  assumes "n \<noteq> strings d" and "0 < n"
  shows "\<forall>e\<in>set (dots (setStrings n d)). snd e \<noteq> [] \<and> 0 \<le> fst e \<and> fst e < n"
proof -
  have "\<forall>e\<in>set (fst (([], []) :: Dot list intmap \<times> Marker intmap)). snd e \<noteq> [] \<and> 0 \<le> fst e \<and> fst e < n"
    by simp
  from setStrings_fold_good[OF this, of "[0..strings d - 1]" d "n - strings d"]
  show ?thesis using assms by (simp add: setStrings_dots)
qed

lemma setStrings_nonempty: "dots_nonempty d \<Longrightarrow> dots_nonempty (setStrings n d)"
proof (cases "n \<noteq> strings d \<and> 0 < n")
  case True
  then show ?thesis using setStrings_good[of n d] by (auto simp: dots_nonempty_def)
next
  case False
  then have "setStrings n d = d" by (intro setStrings_noop) auto
  then show "dots_nonempty d \<Longrightarrow> ?thesis" by simp
qed

lemma setStrings_in_range: "dots_in_range d \<Longrightarrow> dots_in_range (setStrings n d)"
proof (cases "n \<noteq> strings d \<and> 0 < n")
  case True
  then show ?thesis using setStrings_good[of n d] setStrings_strings[of n d]
    by (auto simp: dots_in_range_def)
next
  case False
  then have "setStrings n d = d" by (intro setStrings_noop) auto
  then show "dots_in_range d \<Longrightarrow> ?thesis" by simp
qed

text \<open>A property of diagrams that every mutation keeps.\<close>

lemma read_elem_keeps:
  assumes step: "\<And>d d'. dots_step d d' \<Longrightarrow> I d \<Longrightarrow> I d'"
    and str: "\<And>n d. I d \<Longrightarrow> I (setStrings n d)"
    and fr: "\<And>k d. I d \<Longrightarrow> I (d\<lparr>frets := k\<rparr>)"
    and fo: "\<And>k d. I d \<Longrightarrow> I (d\<lparr>fretOffset := k\<rparr>)"
    and "I (fst acc)"
  shows "I (fst (read_elem e acc))"
proof -
  obtain d hb hn where acc: "acc = (d, hb, hn)" by (cases acc)
  have i: "I d" using assms(5) acc by simp
  have a: "I (readNew elems d)" for elems using step[OF readNew_step i] .
  have b: "I (fold (read_item no) items d)" for no items
    using step[OF fold_dots_step[of "read_item no", OF read_item_step] i] .
  show ?thesis
    by (cases e) (simp_all add: acc i a b str fr fo)
qed

lemma read_fold_keeps:
  assumes step: "\<And>d d'. dots_step d d' \<Longrightarrow> I d \<Longrightarrow> I d'"
    and str: "\<And>n d. I d \<Longrightarrow> I (setStrings n d)"
    and fr: "\<And>k d. I d \<Longrightarrow> I (d\<lparr>frets := k\<rparr>)"
    and fo: "\<And>k d. I d \<Longrightarrow> I (d\<lparr>fretOffset := k\<rparr>)"
    and "I (fst acc)"
  shows "I (fst (fold read_elem elems acc))"
  using assms(5)
proof (induction elems arbitrary: acc)
  case Nil
  then show ?case by simp
next
  case (Cons e elems)
  have "I (fst (read_elem e acc))"
    using read_elem_keeps[where I = I, OF step str fr fo Cons.prems] by simp
  then show ?case using Cons.IH by simp
qed

lemma read_keeps:
  assumes step: "\<And>d d'. dots_step d d' \<Longrightarrow> I d \<Longrightarrow> I d'"
    and str: "\<And>n d. I d \<Longrightarrow> I (setStrings n d)"
    and fr: "\<And>k d. I d \<Longrightarrow> I (d\<lparr>frets := k\<rparr>)"
    and fo: "\<And>k d. I d \<Longrightarrow> I (d\<lparr>fretOffset := k\<rparr>)"
    and "I d"
  shows "I (read elems d)"
proof -
  let ?r = "fold read_elem elems (d, False, False)"
  have i: "I (fst ?r)"
    using read_fold_keeps[where I = I and acc = "(d, False, False)", OF step str fr fo] assms(5)
    by simp
  have "I (setBarre a b c (fst ?r))" for a b c
    using step[OF setBarre_step i] .
  then show ?thesis using i by (simp add: read_def Let_def split: option.splits)
qed

lemma apply_mutation_keeps:
  assumes step: "\<And>d d'. dots_step d d' \<Longrightarrow> I d \<Longrightarrow> I d'"
    and str: "\<And>n d. I d \<Longrightarrow> I (setStrings n d)"
    and fr: "\<And>k d. I d \<Longrightarrow> I (d\<lparr>frets := k\<rparr>)"
    and fo: "\<And>k d. I d \<Longrightarrow> I (d\<lparr>fretOffset := k\<rparr>)"
    and i: "I d"
  shows "I (apply_mutation m d)"
proof (cases m)
  case (SetDot s f add dt)
  then show ?thesis using step[OF setDot_step i] by simp
next
  case (SetMarker s t)
  then show ?thesis using step[OF setMarker_step i] by simp
next
  case (SetBarre a b c)
  then show ?thesis using step[OF setBarre_step i] by simp
next
  case (SetBarreToggle s f add)
  then show ?thesis using step[OF setBarre_toggle_step i] by simp
next
  case (SetStrings n)
  then show ?thesis using str[OF i] by simp
next
  case Clear
  then show ?thesis using step[OF clear_step i] by simp
next
  case (ReadNew elems)
  then show ?thesis using step[OF readNew_step i] by simp
next
  case (Read elems)
  then show ?thesis using read_keeps[where I = I, OF step str fr fo i] by simp
qed

lemma run_keeps:
  assumes step: "\<And>d d'. dots_step d d' \<Longrightarrow> I d \<Longrightarrow> I d'"
    and str: "\<And>n d. I d \<Longrightarrow> I (setStrings n d)"
    and fr: "\<And>k d. I d \<Longrightarrow> I (d\<lparr>frets := k\<rparr>)"
    and fo: "\<And>k d. I d \<Longrightarrow> I (d\<lparr>fretOffset := k\<rparr>)"
    and "I d"
  shows "I (run ms d)"
  using assms(5) unfolding run_def
proof (induction ms arbitrary: d)
  case Nil
  then show ?case by simp
next
  case (Cons m ms)
  have "I (apply_mutation m d)"
    using apply_mutation_keeps[where I = I, OF step str fr fo Cons.prems] .
  then show ?case using Cons.IH by simp
qed

lemma run_dots_nonempty: "dots_nonempty d \<Longrightarrow> dots_nonempty (run ms d)"
proof (rule run_keeps[where I = dots_nonempty])
  show "dots_nonempty d'" if "dots_step e d'" "dots_nonempty e" for e d'
    using that by (rule dots_step_nonempty)
  show "dots_nonempty (setStrings n e)" if "dots_nonempty e" for n e
    using that by (rule setStrings_nonempty)
  show "dots_nonempty (e\<lparr>frets := k\<rparr>)" if "dots_nonempty e" for k e
    using that by (simp add: dots_nonempty_def)
  show "dots_nonempty (e\<lparr>fretOffset := k\<rparr>)" if "dots_nonempty e" for k e
    using that by (simp add: dots_nonempty_def)
qed

lemma run_dots_in_range: "dots_in_range d \<Longrightarrow> dots_in_range (run ms d)"
proof (rule run_keeps[where I = dots_in_range])
  show "dots_in_range d'" if "dots_step e d'" "dots_in_range e" for e d'
    using that by (rule dots_step_in_range)
  show "dots_in_range (setStrings n e)" if "dots_in_range e" for n e
    using that by (rule setStrings_in_range)
  show "dots_in_range (e\<lparr>frets := k\<rparr>)" if "dots_in_range e" for k e
    using that by (simp add: dots_in_range_def)
  show "dots_in_range (e\<lparr>fretOffset := k\<rparr>)" if "dots_in_range e" for k e
    using that by (simp add: dots_in_range_def)
qed

lemma dot_nonempty: "dots_nonempty e \<Longrightarrow> dot e s f \<noteq> []"
proof (cases "map_of (dots e) s")
  case None
  then show ?thesis by (simp add: dot_def)
next
  case (Some ds)
  assume "dots_nonempty e"
  moreover from Some have "(s, ds) \<in> set (dots e)" by (rule map_of_SomeD)
  ultimately have "ds \<noteq> []" by (auto simp: dots_nonempty_def)
  then show ?thesis using Some by (simp add: dot_def split: option.splits)
qed

lemma dot_singleton: "f \<noteq> 0 \<Longrightarrow> \<exists>x. dot e s f = [x]"
  by (simp add: dot_def split: option.splits)

section \<open>The dot accessor and the pruning of empty vectors\<close>

text \<open>
  C10: starting from a diagram whose dots map holds no empty vector (a fresh diagram, for
  one), after any run of public mutations every key of the dots map holds a non-empty
  vector, and the accessor \<^verbatim>\<open>dot(s, f)\<close> returns a non-empty vector for every \<open>s\<close> and
  \<open>f\<close>. On any diagram, for \<open>f \<noteq> 0\<close> the accessor returns exactly one element, so the
  read of element 0 in the add-toggle check of \<^verbatim>\<open>setDot\<close> (reached only with a fret
  other than 0) is in bounds; when the string has no key, or no dot of fret \<open>f\<close>, the
  result is the single sentinel dot of fret 0, which does not exist; and \<^verbatim>\<open>removeDot\<close>
  never leaves an empty vector under its key.
\<close>

theorem dot_access_in_bounds:
  assumes "dots_nonempty d0"
  shows "dots_nonempty (run ms d0)
    \<and> dot (run ms d0) s f \<noteq> []
    \<and> (\<forall>e. f \<noteq> 0 \<longrightarrow> (\<exists>x. dot e s f = [x]))
    \<and> (\<forall>e. map_of (dots e) s = None \<or> (f \<noteq> 0 \<and> f \<notin> fret ` set (map_index (dots e) s))
          \<longrightarrow> dot e s f = [Dot 0 DotNORMAL])
    \<and> \<not> dot_exists (Dot 0 DotNORMAL)
    \<and> (\<forall>e. map_of (dots (removeDot s f e)) s \<noteq> Some [])"
proof -
  have a: "dots_nonempty (run ms d0)" using assms by (rule run_dots_nonempty)
  then have b: "dot (run ms d0) s f \<noteq> []" by (rule dot_nonempty)
  have c: "\<exists>x. dot e s f = [x]" if "f \<noteq> 0" for e using that by (rule dot_singleton)
  have d: "dot e s f = [Dot 0 DotNORMAL]"
    if "map_of (dots e) s = None \<or> (f \<noteq> 0 \<and> f \<notin> fret ` set (map_index (dots e) s))" for e
    using that dot_absent dot_not_found by blast
  have e: "\<not> dot_exists (Dot 0 DotNORMAL)" by (simp add: dot_exists_def)
  have g: "map_of (dots (removeDot s f e)) s \<noteq> Some []" for e
    by (simp add: dots_removeDot prune_def)
  from a b c d e g show ?thesis by blast
qed

theorem dot_access_in_bounds_witness:
  "dots_nonempty (run [SetDot 2 3 True DotNORMAL, SetMarker 1 MarkerCROSS,
       SetDot 2 3 True DotNORMAL] (newDiagram 6 4))
   \<and> dot (run [SetDot 2 3 True DotNORMAL, SetMarker 1 MarkerCROSS,
       SetDot 2 3 True DotNORMAL] (newDiagram 6 4)) 2 0 \<noteq> []"
proof -
  have pre: "dots_nonempty (newDiagram 6 4)"
    by (simp add: dots_nonempty_def newDiagram_def)
  from dot_access_in_bounds [OF pre, where s = 2 and f = 0] show ?thesis by blast
qed

section \<open>Changing the string count\<close>

text \<open>
  C3 (the code at the failing input): a diagram of six strings and four frets with an
  open barre at fret 1 that starts on string 1. \<^verbatim>\<open>setStrings(5)\<close> shifts by -1, the new
  start string 0 lies inside \<open>[0, 5)\<close>, and yet the barre is removed; a dot and a marker
  on the same string 1 are kept and land on string 0.
\<close>

theorem setStrings_barre_dropped:
  "barres (setStrings 5 ((newDiagram 6 4)\<lparr>barres := [(1, Barre 1 (-1))]\<rparr>)) = []
   \<and> dots (setStrings 5 ((newDiagram 6 4)\<lparr>dots := [(1, [Dot 1 DotNORMAL])],
        markers := [(1, Marker MarkerCROSS)]\<rparr>)) = [(0, [Dot 1 DotNORMAL])]
   \<and> markers (setStrings 5 ((newDiagram 6 4)\<lparr>dots := [(1, [Dot 1 DotNORMAL])],
        markers := [(1, Marker MarkerCROSS)]\<rparr>)) = [(0, Marker MarkerCROSS)]"
  by code_simp

section \<open>Diagrams from patterns\<close>

lemma digitValue_letters [simp]:
  "digitValue (CHR ''X'') = -1" "digitValue (CHR ''O'') = -1" "digitValue (CHR ''-'') = -1"
  by (simp_all add: digitValue_def)

lemma digitValue_ge: "-1 \<le> digitValue c"
  by (simp add: digitValue_def Let_def)

lemma maxDigit_ge: "-1 \<le> maxDigit cs"
  by (induction cs) (auto simp: digitValue_ge)

lemma scan_offset:
  "0 \<le> off \<Longrightarrow>
   fst (snd (scanPattern i cs (fd, off, bs, dta))) = max off (maxDigit cs - 3)"
proof (induction cs arbitrary: i fd off bs dta)
  case Nil
  then show ?case by simp
next
  case (Cons c cs)
  have m: "-1 \<le> maxDigit cs" by (rule maxDigit_ge)
  have d: "-1 \<le> digitValue c" by (rule digitValue_ge)
  show ?case
    using Cons.prems m d by (auto simp: Cons.IH Let_def)
qed

lemma scan_barre:
  "0 \<le> i \<Longrightarrow>
   fst (snd (snd (scanPattern i cs (fd, off, bs, dta)))) =
     (if bs \<noteq> -1 then bs
      else if CHR ''-'' \<in> set cs then i + int (length (takeWhile (\<lambda>c. c \<noteq> CHR ''-'') cs))
      else -1)"
proof (induction cs arbitrary: i fd off bs dta)
  case Nil
  then show ?case by simp
next
  case (Cons c cs)
  then show ?case by (auto simp: Let_def)
qed

lemma scan_dots:
  "snd (snd (snd (scanPattern i cs (fd, off, bs, dta)))) = dta @ pattern_dots i cs"
proof (induction cs arbitrary: i fd off bs dta)
  case Nil
  then show ?case by simp
next
  case (Cons c cs)
  then show ?case by (auto simp: Let_def)
qed

lemma scan_fields:
  "strings (fst (scanPattern i cs (fd, off, bs, dta))) = strings fd"
  "frets (fst (scanPattern i cs (fd, off, bs, dta))) = frets fd"
  "fretOffset (fst (scanPattern i cs (fd, off, bs, dta))) = fretOffset fd"
  by (induction cs arbitrary: i fd off bs dta; simp add: Let_def)+

lemma setMarker_dots_empty: "dots d = [] \<Longrightarrow> dots (setMarker s t d) = []"
  by (simp add: setMarker_def Let_def removeDot_def map_erase_def map_index_def)

lemma setMarker_barres_empty: "barres d = [] \<Longrightarrow> barres (setMarker s t d) = []"
  by (simp add: barres_setMarker)

lemma scan_dots_empty:
  "dots fd = [] \<Longrightarrow> dots (fst (scanPattern i cs (fd, off, bs, dta))) = []"
  by (induction cs arbitrary: i fd off bs dta) (simp_all add: Let_def setMarker_dots_empty)

lemma scan_barres_empty:
  "barres fd = [] \<Longrightarrow> barres (fst (scanPattern i cs (fd, off, bs, dta))) = []"
  by (induction cs arbitrary: i fd off bs dta) (simp_all add: Let_def setMarker_barres_empty)

lemma nth_shift: "i < k \<Longrightarrow> (c # cs) ! nat (k - i) = cs ! nat (k - (i + 1))" for i k :: int
proof -
  assume "i < k"
  then have "nat (k - i) = Suc (nat (k - (i + 1)))" by simp
  then show ?thesis by simp
qed

lemma scan_Cons:
  "\<exists>off' bs' dta'.
     scanPattern i (c # cs) (fd, off, bs, dta) =
     scanPattern (i + 1) cs
       (if c = CHR ''X'' \<or> c = CHR ''O''
        then setMarker i (if c = CHR ''X'' then MarkerCROSS else MarkerCIRCLE) fd else fd,
        off', bs', dta')"
  by (simp add: Let_def) blast

lemma scan_markers:
  "0 \<le> i \<Longrightarrow> i + int (length cs) \<le> strings fd \<Longrightarrow>
   map_of (markers (fst (scanPattern i cs (fd, off, bs, dta)))) k =
     (if i \<le> k \<and> k < i + int (length cs) \<and> cs ! nat (k - i) = CHR ''X''
      then Some (Marker MarkerCROSS)
      else if i \<le> k \<and> k < i + int (length cs) \<and> cs ! nat (k - i) = CHR ''O''
      then Some (Marker MarkerCIRCLE)
      else map_of (markers fd) k)"
proof (induction cs arbitrary: i fd off bs dta)
  case Nil
  then show ?case by auto
next
  case (Cons c cs)
  let ?fd = "if c = CHR ''X'' \<or> c = CHR ''O''
        then setMarker i (if c = CHR ''X'' then MarkerCROSS else MarkerCIRCLE) fd else fd"
  from scan_Cons[of i c cs fd off bs dta] obtain off' bs' dta' where
    eq: "scanPattern i (c # cs) (fd, off, bs, dta) = scanPattern (i + 1) cs (?fd, off', bs', dta')"
    by blast
  have r: "0 \<le> i" "i < strings fd" using Cons.prems by simp_all
  have r1: "0 \<le> i + 1" using Cons.prems by simp
  have r2: "i + 1 + int (length cs) \<le> strings ?fd" using Cons.prems by simp
  note ih = Cons.IH[OF r1 r2, of off' bs' dta']
  have mk: "map_of (markers ?fd) k =
      (if k = i \<and> c = CHR ''X'' then Some (Marker MarkerCROSS)
       else if k = i \<and> c = CHR ''O'' then Some (Marker MarkerCIRCLE)
       else map_of (markers fd) k)"
    using r by (simp add: markers_setMarker)
  have len: "i + 1 + int (length cs) = i + int (length (c # cs))" by simp
  show ?case
  proof (cases "k = i")
    case True
    then show ?thesis unfolding eq ih mk by simp
  next
    case False
    show ?thesis
    proof (cases "i < k")
      case True
      then have "cs ! nat (k - (i + 1)) = (c # cs) ! nat (k - i)" by (rule nth_shift[symmetric])
      then show ?thesis unfolding eq ih mk using True by auto
    next
      case False
      then show ?thesis unfolding eq ih mk using \<open>k \<noteq> i\<close> by auto
    qed
  qed
qed

lemma pattern_dots_keys:
  "p \<in> set (pattern_dots i cs) \<Longrightarrow> i \<le> fst p \<and> fst p < i + int (length cs)"
  by (induction cs arbitrary: i) (fastforce split: if_splits)+

lemma pattern_dots_distinct: "distinct (map fst (pattern_dots i cs))"
proof (induction cs arbitrary: i)
  case Nil
  then show ?case by simp
next
  case (Cons c cs)
  have "i \<notin> fst ` set (pattern_dots (i + 1) cs)"
    using pattern_dots_keys[of _ "i + 1" cs] by fastforce
  then show ?case using Cons by simp
qed

lemma pattern_dots_lookup:
  "map_of (pattern_dots i cs) k =
     (if i \<le> k \<and> k < i + int (length cs) \<and> digitValue (cs ! nat (k - i)) \<noteq> -1
      then Some (digitValue (cs ! nat (k - i))) else None)"
proof (induction cs arbitrary: i)
  case Nil
  then show ?case by auto
next
  case (Cons c cs)
  show ?case
  proof (cases "k = i")
    case True
    have "map_of (pattern_dots (i + 1) cs) i = None"
      using pattern_dots_keys[of _ "i + 1" cs] by (fastforce simp: map_of_eq_None_iff)
    then show ?thesis using True by (simp add: map_add_def)
  next
    case False
    show ?thesis
    proof (cases "i < k")
      case True
      then have "nat (k - i) - Suc 0 = nat (k - (i + 1))" by simp
      then show ?thesis using True False by (auto simp: Cons.IH map_add_def)
    next
      case False
      then show ?thesis using \<open>k \<noteq> i\<close> by (simp add: Cons.IH map_add_def)
    qed
  qed
qed

lemma setDot_add_absent:
  assumes "0 \<le> j" and "j < strings fd" and "map_of (dots fd) j = None"
  shows "markers (setDot j f True dt fd) = markers fd"
    and "barres (setDot j f True dt fd) = barres fd"
    and "strings (setDot j f True dt fd) = strings fd"
    and "frets (setDot j f True dt fd) = frets fd"
    and "fretOffset (setDot j f True dt fd) = fretOffset fd"
    and "map_of (dots (setDot j f True dt fd)) =
           (map_of (dots fd))(j := if f = 0 then None else Some [Dot f dt])"
proof -
  have d: "dot fd j f = [Dot 0 DotNORMAL]" using assms(3) by (rule dot_absent)
  have ne: "\<not> dot_exists (Dot 0 DotNORMAL)" by (simp add: dot_exists_def)
  have mi: "map_index (dots fd) j = []" using assms(3) by (simp add: map_index_def)
  have eq: "setDot j f True dt fd = (if f = 0 then removeDot j f fd else pushDot j (Dot f dt) fd)"
    using assms(1,2) d ne by (simp add: setDot_def)
  show "markers (setDot j f True dt fd) = markers fd"
    "barres (setDot j f True dt fd) = barres fd"
    "strings (setDot j f True dt fd) = strings fd"
    "frets (setDot j f True dt fd) = frets fd"
    "fretOffset (setDot j f True dt fd) = fretOffset fd"
    by (simp_all add: eq)
  show "map_of (dots (setDot j f True dt fd)) =
           (map_of (dots fd))(j := if f = 0 then None else Some [Dot f dt])"
    by (simp add: eq dots_removeDot dots_pushDot prune_def mi)
qed

lemma fold_setDot_add:
  assumes "distinct (map fst ps)"
    and "\<forall>p\<in>set ps. 0 \<le> fst p \<and> fst p < strings fd \<and> map_of (dots fd) (fst p) = None"
  shows "markers (fold (\<lambda>p. setDot (fst p) (snd p - off) True DotNORMAL) ps fd) = markers fd
    \<and> barres (fold (\<lambda>p. setDot (fst p) (snd p - off) True DotNORMAL) ps fd) = barres fd
    \<and> strings (fold (\<lambda>p. setDot (fst p) (snd p - off) True DotNORMAL) ps fd) = strings fd
    \<and> frets (fold (\<lambda>p. setDot (fst p) (snd p - off) True DotNORMAL) ps fd) = frets fd
    \<and> fretOffset (fold (\<lambda>p. setDot (fst p) (snd p - off) True DotNORMAL) ps fd) = fretOffset fd
    \<and> (\<forall>k. map_of (dots (fold (\<lambda>p. setDot (fst p) (snd p - off) True DotNORMAL) ps fd)) k =
          (case map_of ps k of
             None \<Rightarrow> map_of (dots fd) k
           | Some dv \<Rightarrow> if dv - off = 0 then None else Some [Dot (dv - off) DotNORMAL]))"
  using assms
proof (induction ps arbitrary: fd)
  case Nil
  then show ?case by simp
next
  case (Cons p ps)
  obtain j dv where p: "p = (j, dv)" by (cases p)
  let ?fd = "setDot j (dv - off) True DotNORMAL fd"
  have j: "0 \<le> j" "j < strings fd" "map_of (dots fd) j = None"
    using Cons.prems(2) p by simp_all
  note s = setDot_add_absent[OF j, of "dv - off" DotNORMAL]
  have notin: "j \<notin> fst ` set ps" using Cons.prems(1) p by simp
  have pre1: "distinct (map fst ps)" using Cons.prems(1) by simp
  have pre2: "\<forall>q\<in>set ps. 0 \<le> fst q \<and> fst q < strings ?fd \<and> map_of (dots ?fd) (fst q) = None"
  proof
    fix q assume q: "q \<in> set ps"
    then have "fst q \<noteq> j" using notin by auto
    then show "0 \<le> fst q \<and> fst q < strings ?fd \<and> map_of (dots ?fd) (fst q) = None"
      using Cons.prems(2) q by (simp add: s)
  qed
  note ih = Cons.IH[OF pre1 pre2]
  have none: "map_of ps j = None" using notin by (simp add: map_of_eq_None_iff)
  have look: "map_of (dots (fold (\<lambda>p. setDot (fst p) (snd p - off) True DotNORMAL) (p # ps) fd)) k =
          (case map_of (p # ps) k of
             None \<Rightarrow> map_of (dots fd) k
           | Some dv \<Rightarrow> if dv - off = 0 then None else Some [Dot (dv - off) DotNORMAL])" for k
  proof (cases "k = j")
    case True
    then show ?thesis using ih none j by (simp add: p s)
  next
    case False
    then show ?thesis using ih by (simp add: p s split: option.splits)
  qed
  show ?case using ih look by (simp add: p s)
qed

lemma setStrings_string_fresh:
  "dots d = [] \<Longrightarrow> markers d = [] \<Longrightarrow> setStrings_string d difference s ([], []) = ([], [])"
  by (simp add: setStrings_string_def setStrings_dots_def dot_def marker_def marker_exists_def
      dot_exists_def)

lemma setStrings_fold_fresh:
  "dots d = [] \<Longrightarrow> markers d = [] \<Longrightarrow>
   fold (setStrings_string d difference) ks ([], []) = ([], [])"
  by (induction ks) (simp_all add: setStrings_string_fresh)

lemma setStrings_barre_fresh: "barres d = [] \<Longrightarrow> setStrings_barre difference f d = d"
  by (simp add: setStrings_barre_def barre_def barre_exists_def)

lemma setStrings_barre_fold_fresh:
  "barres d = [] \<Longrightarrow> fold (setStrings_barre difference) fs d = d"
  by (induction fs) (simp_all add: setStrings_barre_fresh)

lemma setStrings_fresh:
  assumes "dots d = []" and "markers d = []" and "barres d = []" and "0 < n"
  shows "setStrings n d = d\<lparr>strings := n\<rparr>"
proof (cases "n = strings d")
  case True
  then show ?thesis by (simp add: setStrings_def)
next
  case False
  have b: "barres (d\<lparr>dots := [], markers := []\<rparr>) = []" using assms(3) by simp
  have e: "d\<lparr>dots := [], markers := []\<rparr> = d" using assms(1,2) by simp
  show ?thesis
    using False assms(4)
    by (simp add: setStrings_def Let_def setStrings_fold_fresh[OF assms(1,2)]
        setStrings_barre_fold_fresh[OF b] setStrings_barre_fold_fresh[OF assms(3)] e)
qed

lemma first_dash_less:
  "CHR ''-'' \<in> set s \<Longrightarrow> length (takeWhile (\<lambda>c. c \<noteq> CHR ''-'') s) < length s"
proof -
  assume a: "CHR ''-'' \<in> set s"
  have le: "length (takeWhile (\<lambda>c. c \<noteq> CHR ''-'') s) \<le> length s"
    by (rule length_takeWhile_le)
  have "takeWhile (\<lambda>c. c \<noteq> CHR ''-'') s \<noteq> s"
    using a by (auto simp: takeWhile_eq_all_conv)
  then have "length (takeWhile (\<lambda>c. c \<noteq> CHR ''-'') s) \<noteq> length s"
    by (metis takeWhile_eq_take take_all order_refl)
  with le show ?thesis by simp
qed

lemma setBarre_fields [simp]:
  "dots (setBarre ss es f d) = dots d"
  "markers (setBarre ss es f d) = markers d"
  "strings (setBarre ss es f d) = strings d"
  "frets (setBarre ss es f d) = frets d"
  "fretOffset (setBarre ss es f d) = fretOffset d"
  by (simp_all add: setBarre_def removeBarre_def)

lemma createFromString_empty:
  "createFromString fd0 [] = fd0\<lparr>frets := 4\<rparr>"
  by (simp add: createFromString_def Let_def setStrings_noop)

lemma createFromString_nonempty:
  assumes "dots fd0 = []" and "markers fd0 = []" and "barres fd0 = []"
    and "fretOffset fd0 = 0" and "s \<noteq> []"
  shows "strings (createFromString fd0 s) = int (length s)
    \<and> frets (createFromString fd0 s) = 4
    \<and> fretOffset (createFromString fd0 s) = max 0 (maxDigit s - 3)
    \<and> (\<forall>k. map_of (markers (createFromString fd0 s)) k =
          (if 0 \<le> k \<and> k < int (length s) \<and> s ! nat k = CHR ''X'' then Some (Marker MarkerCROSS)
           else if 0 \<le> k \<and> k < int (length s) \<and> s ! nat k = CHR ''O''
           then Some (Marker MarkerCIRCLE) else None))
    \<and> (\<forall>k. map_of (dots (createFromString fd0 s)) k =
          (if 0 \<le> k \<and> k < int (length s) \<and> digitValue (s ! nat k) \<noteq> -1 \<and>
              digitValue (s ! nat k) - max 0 (maxDigit s - 3) \<noteq> 0
           then Some [Dot (digitValue (s ! nat k) - max 0 (maxDigit s - 3)) DotNORMAL]
           else None))
    \<and> barres (createFromString fd0 s) =
        (if CHR ''-'' \<in> set s
         then [(1, Barre (int (length (takeWhile (\<lambda>c. c \<noteq> CHR ''-'') s))) (-1))]
         else [])"
proof -
  define n where "n = int (length s)"
  define off where "off = max 0 (maxDigit s - 3)"
  define fd1 where "fd1 = (setStrings n fd0)\<lparr>frets := 4\<rparr>"
  define sc where "sc = scanPattern 0 s (fd1, 0, -1, [])"
  define fd2 where "fd2 = fst sc"
  define bs where "bs = fst (snd (snd sc))"
  define fd3 where "fd3 = (if 0 < off then fd2\<lparr>fretOffset := off\<rparr> else fd2)"
  define fd4 where "fd4 = fold (\<lambda>p. setDot (fst p) (snd p - off) True DotNORMAL) (pattern_dots 0 s) fd3"
  have npos: "0 < n" using assms(5) by (simp add: n_def)
  have fd1: "fd1 = fd0\<lparr>strings := n, frets := 4\<rparr>"
    using setStrings_fresh[OF assms(1,2,3) npos] by (simp add: fd1_def)
  have sc_off: "fst (snd sc) = off"
    using scan_offset[of 0 0 s fd1 "-1" "[]"] by (simp add: sc_def off_def)
  have sc_dta: "snd (snd (snd sc)) = pattern_dots 0 s"
    using scan_dots[of 0 s fd1 0 "-1" "[]"] by (simp add: sc_def)
  have bs: "bs = (if CHR ''-'' \<in> set s
      then int (length (takeWhile (\<lambda>c. c \<noteq> CHR ''-'') s)) else -1)"
    using scan_barre[of 0 s fd1 0 "-1" "[]"] by (simp add: sc_def bs_def)
  have r: "createFromString fd0 s = (if 0 \<le> bs then setBarre bs (-1) 1 fd4 else fd4)"
    by (simp add: createFromString_def Let_def fd4_def fd3_def fd2_def bs_def
        sc_off[unfolded sc_def fd1_def n_def] sc_dta[unfolded sc_def fd1_def n_def]
        sc_def fd1_def n_def)
  have f2: "strings fd2 = n" "frets fd2 = 4" "fretOffset fd2 = 0" "dots fd2 = []" "barres fd2 = []"
    using assms(1,3,4)
    by (simp_all add: fd2_def sc_def scan_fields scan_dots_empty scan_barres_empty fd1)
  have m2: "map_of (markers fd2) k =
     (if 0 \<le> k \<and> k < n \<and> s ! nat k = CHR ''X'' then Some (Marker MarkerCROSS)
      else if 0 \<le> k \<and> k < n \<and> s ! nat k = CHR ''O'' then Some (Marker MarkerCIRCLE)
      else None)" for k
    using scan_markers[of 0 s fd1 0 "-1" "[]" k] assms(2)
    by (simp add: fd2_def sc_def fd1 n_def)
  have offnn: "0 \<le> off" by (simp add: off_def)
  have f3: "strings fd3 = n" "frets fd3 = 4" "fretOffset fd3 = off" "dots fd3 = []"
    "barres fd3 = []" "markers fd3 = markers fd2"
    using f2 offnn by (auto simp: fd3_def)
  have pre1: "distinct (map fst (pattern_dots 0 s))" by (rule pattern_dots_distinct)
  have pre2: "\<forall>p\<in>set (pattern_dots 0 s).
      0 \<le> fst p \<and> fst p < strings fd3 \<and> map_of (dots fd3) (fst p) = None"
    using pattern_dots_keys[of _ 0 s] by (auto simp: f3 n_def)
  note f4 = fold_setDot_add[OF pre1 pre2, of off, folded fd4_def]
  have d4: "map_of (dots fd4) k =
      (if 0 \<le> k \<and> k < n \<and> digitValue (s ! nat k) \<noteq> -1 \<and> digitValue (s ! nat k) - off \<noteq> 0
       then Some [Dot (digitValue (s ! nat k) - off) DotNORMAL] else None)" for k
    using f4 by (simp add: pattern_dots_lookup f3 n_def)
  have bsr: "bs < n" "-1 \<le> bs"
    using first_dash_less[of s] by (auto simp: bs n_def)
  have rb: "barres (createFromString fd0 s) =
      (if 0 \<le> bs then [(1, Barre bs (-1))] else [])"
    using f4 f3 bsr npos by (simp add: r setBarre_def)
  have rf: "strings (createFromString fd0 s) = n" "frets (createFromString fd0 s) = 4"
    "fretOffset (createFromString fd0 s) = off"
    "markers (createFromString fd0 s) = markers fd2"
    "dots (createFromString fd0 s) = dots fd4"
    using f4 f3 by (simp_all add: r)
  have A: "strings (createFromString fd0 s) = int (length s)" by (simp add: rf n_def)
  have B: "frets (createFromString fd0 s) = 4" by (simp add: rf)
  have C: "fretOffset (createFromString fd0 s) = max 0 (maxDigit s - 3)" by (simp add: rf off_def)
  have D: "map_of (markers (createFromString fd0 s)) k =
          (if 0 \<le> k \<and> k < int (length s) \<and> s ! nat k = CHR ''X'' then Some (Marker MarkerCROSS)
           else if 0 \<le> k \<and> k < int (length s) \<and> s ! nat k = CHR ''O''
           then Some (Marker MarkerCIRCLE) else None)" for k
    unfolding rf m2 n_def by (rule refl)
  have E: "map_of (dots (createFromString fd0 s)) k =
          (if 0 \<le> k \<and> k < int (length s) \<and> digitValue (s ! nat k) \<noteq> -1 \<and>
              digitValue (s ! nat k) - max 0 (maxDigit s - 3) \<noteq> 0
           then Some [Dot (digitValue (s ! nat k) - max 0 (maxDigit s - 3)) DotNORMAL]
           else None)" for k
    unfolding rf d4 n_def off_def by (rule refl)
  have F: "barres (createFromString fd0 s) =
        (if CHR ''-'' \<in> set s
         then [(1, Barre (int (length (takeWhile (\<lambda>c. c \<noteq> CHR ''-'') s))) (-1))]
         else [])"
    by (simp add: rb bs)
  from A B C D E F show ?thesis by blast
qed

text \<open>
  C9 (as stated, refuted): on the empty pattern the diagram of the factory, here one of
  six strings, keeps its six strings although the pattern has no character; and on the
  pattern \<open>14\<close> the offset is 1, the digit 1 goes to relative fret 0, and string 0 gets
  no dot.
\<close>

theorem createFromString_counterexample:
  "strings (createFromString (newDiagram 6 5) []) = 6
   \<and> dots (createFromString (newDiagram 6 5) ''14'') = [(1, [Dot 3 DotNORMAL])]
   \<and> fretOffset (createFromString (newDiagram 6 5) ''14'') = 1"
  by code_simp

text \<open>
  C9 (amended): \<^verbatim>\<open>createFromString\<close>, run on the diagram \<open>fd0\<close> that the factory hands
  out (all three maps empty, no fret offset), builds for every pattern \<open>s\<close> a diagram of
  four frets that has one string per character when the pattern has a character, and
  the string count of the factory when the pattern is empty. The fret offset is
  \<open>max(0, maxDigit - 3)\<close> over the digits of the pattern. On string \<open>i\<close>: an \<open>X\<close> stores a
  CROSS marker, an \<open>O\<close> a CIRCLE marker, any other character no marker; a digit \<open>d\<close>
  other than the offset stores exactly the one dot of fret \<open>d - offset\<close> (a fret below
  zero, hence a dot that does not exist, when \<open>d\<close> is below the offset); a digit equal to
  the offset and any character that is not a digit store no dot. Nothing is stored
  outside the strings of the pattern. If a \<open>-\<close> occurs, the only barre is the open one
  at relative fret 1 that starts on the string of the first \<open>-\<close>; otherwise there is no
  barre. The pattern \<open>X32010\<close> gives the marker CROSS on string 0, offset 0 and no barre.
\<close>

theorem createFromString_pattern:
  assumes "dots fd0 = []" and "markers fd0 = []" and "barres fd0 = []"
    and "fretOffset fd0 = 0"
  shows "strings (createFromString fd0 s) = (if s = [] then strings fd0 else int (length s))
    \<and> frets (createFromString fd0 s) = 4
    \<and> fretOffset (createFromString fd0 s) = max 0 (maxDigit s - 3)
    \<and> (\<forall>i<length s.
          (s ! i = CHR ''X'' \<longrightarrow>
             map_of (markers (createFromString fd0 s)) (int i) = Some (Marker MarkerCROSS))
        \<and> (s ! i = CHR ''O'' \<longrightarrow>
             map_of (markers (createFromString fd0 s)) (int i) = Some (Marker MarkerCIRCLE))
        \<and> (s ! i \<noteq> CHR ''X'' \<and> s ! i \<noteq> CHR ''O'' \<longrightarrow>
             map_of (markers (createFromString fd0 s)) (int i) = None)
        \<and> (digitValue (s ! i) \<noteq> -1 \<and> digitValue (s ! i) \<noteq> max 0 (maxDigit s - 3) \<longrightarrow>
             map_of (dots (createFromString fd0 s)) (int i) =
               Some [Dot (digitValue (s ! i) - max 0 (maxDigit s - 3)) DotNORMAL])
        \<and> (digitValue (s ! i) = -1 \<or> digitValue (s ! i) = max 0 (maxDigit s - 3) \<longrightarrow>
             map_of (dots (createFromString fd0 s)) (int i) = None))
    \<and> (\<forall>k. k < 0 \<or> int (length s) \<le> k \<longrightarrow>
          map_of (markers (createFromString fd0 s)) k = None
        \<and> map_of (dots (createFromString fd0 s)) k = None)
    \<and> barres (createFromString fd0 s) =
        (if CHR ''-'' \<in> set s
         then [(1, Barre (int (length (takeWhile (\<lambda>c. c \<noteq> CHR ''-'') s))) (-1))]
         else [])"
proof (cases "s = []")
  case True
  then show ?thesis
    using assms by (simp add: createFromString_empty)
next
  case False
  note n = createFromString_nonempty[OF assms False]
  have mk: "map_of (markers (createFromString fd0 s)) k =
          (if 0 \<le> k \<and> k < int (length s) \<and> s ! nat k = CHR ''X'' then Some (Marker MarkerCROSS)
           else if 0 \<le> k \<and> k < int (length s) \<and> s ! nat k = CHR ''O''
           then Some (Marker MarkerCIRCLE) else None)" for k
    using n by blast
  have dt: "map_of (dots (createFromString fd0 s)) k =
          (if 0 \<le> k \<and> k < int (length s) \<and> digitValue (s ! nat k) \<noteq> -1 \<and>
              digitValue (s ! nat k) - max 0 (maxDigit s - 3) \<noteq> 0
           then Some [Dot (digitValue (s ! nat k) - max 0 (maxDigit s - 3)) DotNORMAL]
           else None)" for k
    using n by blast
  have A: "strings (createFromString fd0 s) = (if s = [] then strings fd0 else int (length s))"
    using n False by simp
  have B: "frets (createFromString fd0 s) = 4" using n by simp
  have C: "fretOffset (createFromString fd0 s) = max 0 (maxDigit s - 3)" using n by simp
  have D: "(s ! i = CHR ''X'' \<longrightarrow>
             map_of (markers (createFromString fd0 s)) (int i) = Some (Marker MarkerCROSS))
        \<and> (s ! i = CHR ''O'' \<longrightarrow>
             map_of (markers (createFromString fd0 s)) (int i) = Some (Marker MarkerCIRCLE))
        \<and> (s ! i \<noteq> CHR ''X'' \<and> s ! i \<noteq> CHR ''O'' \<longrightarrow>
             map_of (markers (createFromString fd0 s)) (int i) = None)
        \<and> (digitValue (s ! i) \<noteq> -1 \<and> digitValue (s ! i) \<noteq> max 0 (maxDigit s - 3) \<longrightarrow>
             map_of (dots (createFromString fd0 s)) (int i) =
               Some [Dot (digitValue (s ! i) - max 0 (maxDigit s - 3)) DotNORMAL])
        \<and> (digitValue (s ! i) = -1 \<or> digitValue (s ! i) = max 0 (maxDigit s - 3) \<longrightarrow>
             map_of (dots (createFromString fd0 s)) (int i) = None)" if "i < length s" for i
    unfolding mk dt using that by auto
  have E: "map_of (markers (createFromString fd0 s)) k = None
        \<and> map_of (dots (createFromString fd0 s)) k = None" if "k < 0 \<or> int (length s) \<le> k" for k
    unfolding mk dt using that by auto
  have F: "barres (createFromString fd0 s) =
        (if CHR ''-'' \<in> set s
         then [(1, Barre (int (length (takeWhile (\<lambda>c. c \<noteq> CHR ''-'') s))) (-1))]
         else [])"
    using n by blast
  from A B C D E F show ?thesis by blast
qed

theorem createFromString_pattern_witness:
  "createFromString (newDiagram 6 5) ''X32010'' =
     \<lparr>strings = 6, frets = 4, fretOffset = 0,
      dots = [(1, [Dot 3 DotNORMAL]), (2, [Dot 2 DotNORMAL]), (4, [Dot 1 DotNORMAL])],
      markers = [(0, Marker MarkerCROSS)], barres = []\<rparr>
   \<and> barres (createFromString (newDiagram 6 5) ''X32010'') =
       (if CHR ''-'' \<in> set ''X32010''
        then [(1, Barre (int (length (takeWhile (\<lambda>c. c \<noteq> CHR ''-'') ''X32010''))) (-1))]
        else [])
   \<and> fretOffset (createFromString (newDiagram 6 5) ''X32010'') = max 0 (maxDigit ''X32010'' - 3)
   \<and> strings (createFromString (newDiagram 6 5) ''O-215'') = 5
   \<and> fretOffset (createFromString (newDiagram 6 5) ''O-215'') = 2
   \<and> map_of (markers (createFromString (newDiagram 6 5) ''O-215'')) 0 = Some (Marker MarkerCIRCLE)
   \<and> map_of (markers (createFromString (newDiagram 6 5) ''O-215'')) 1 = None
   \<and> map_of (dots (createFromString (newDiagram 6 5) ''O-215'')) 2 = None
   \<and> map_of (dots (createFromString (newDiagram 6 5) ''O-215'')) 3 = Some [Dot (-1) DotNORMAL]
   \<and> map_of (dots (createFromString (newDiagram 6 5) ''O-215'')) 4 = Some [Dot 3 DotNORMAL]
   \<and> map_of (dots (createFromString (newDiagram 6 5) ''O-215'')) 5 = None
   \<and> barres (createFromString (newDiagram 6 5) ''O-215'') = [(1, Barre 1 (-1))]
   \<and> strings (createFromString (newDiagram 6 5) []) = 6"
proof -
  have pre: "dots (newDiagram 6 5) = []" "markers (newDiagram 6 5) = []"
    "barres (newDiagram 6 5) = []" "fretOffset (newDiagram 6 5) = 0"
    by (simp_all add: newDiagram_def)
  have ev: "createFromString (newDiagram 6 5) ''X32010'' =
     \<lparr>strings = 6, frets = 4, fretOffset = 0,
      dots = [(1, [Dot 3 DotNORMAL]), (2, [Dot 2 DotNORMAL]), (4, [Dot 1 DotNORMAL])],
      markers = [(0, Marker MarkerCROSS)], barres = []\<rparr>"
    by code_simp
  note t1 = createFromString_pattern [OF pre, of "''X32010''"]
  note t2 = createFromString_pattern [OF pre, of "''O-215''"]
  note t3 = createFromString_pattern [OF pre, of "[]"]
  have md: "max 0 (maxDigit ''O-215'' - 3) = 2" by code_simp
  have ln: "int (length ''O-215'') = 5" "(''O-215'' = []) = False" by simp_all
  have bs: "(if CHR ''-'' \<in> set ''O-215''
         then [(1, Barre (int (length (takeWhile (\<lambda>c. c \<noteq> CHR ''-'') ''O-215''))) (-1))]
         else []) = [(1::int, Barre 1 (-1))]"
    by simp
  have i0: "0 < length ''O-215'' \<and> ''O-215'' ! 0 = CHR ''O''" by simp
  have i1: "1 < length ''O-215'' \<and> ''O-215'' ! 1 \<noteq> CHR ''X'' \<and> ''O-215'' ! 1 \<noteq> CHR ''O''" by simp
  have i2: "2 < length ''O-215'' \<and>
      (digitValue (''O-215'' ! 2) = -1 \<or> digitValue (''O-215'' ! 2) = max 0 (maxDigit ''O-215'' - 3))"
    unfolding md by code_simp
  have i3: "3 < length ''O-215'' \<and> digitValue (''O-215'' ! 3) \<noteq> -1 \<and>
      digitValue (''O-215'' ! 3) \<noteq> max 0 (maxDigit ''O-215'' - 3)"
    unfolding md by code_simp
  have i4: "4 < length ''O-215'' \<and> digitValue (''O-215'' ! 4) \<noteq> -1 \<and>
      digitValue (''O-215'' ! 4) \<noteq> max 0 (maxDigit ''O-215'' - 3)"
    unfolding md by code_simp
  have v3: "digitValue (''O-215'' ! 3) - max 0 (maxDigit ''O-215'' - 3) = -1" unfolding md by code_simp
  have v4: "digitValue (''O-215'' ! 4) - max 0 (maxDigit ''O-215'' - 3) = 3" unfolding md by code_simp
  have o5: "(5::int) < 0 \<or> int (length ''O-215'') \<le> 5" by simp
  have a: "strings (createFromString (newDiagram 6 5) ''O-215'') = 5"
    using t2 ln by simp
  have b: "fretOffset (createFromString (newDiagram 6 5) ''O-215'') = 2"
    using t2 md by simp
  have c: "map_of (markers (createFromString (newDiagram 6 5) ''O-215'')) (int 0) = Some (Marker MarkerCIRCLE)"
    using t2 i0 by blast
  have d: "map_of (markers (createFromString (newDiagram 6 5) ''O-215'')) (int 1) = None"
    using t2 i1 by blast
  have e: "map_of (dots (createFromString (newDiagram 6 5) ''O-215'')) (int 2) = None"
    using t2 i2 by blast
  have f: "map_of (dots (createFromString (newDiagram 6 5) ''O-215'')) (int 3) =
      Some [Dot (digitValue (''O-215'' ! 3) - max 0 (maxDigit ''O-215'' - 3)) DotNORMAL]"
    using t2 i3 by blast
  have g: "map_of (dots (createFromString (newDiagram 6 5) ''O-215'')) (int 4) =
      Some [Dot (digitValue (''O-215'' ! 4) - max 0 (maxDigit ''O-215'' - 3)) DotNORMAL]"
    using t2 i4 by blast
  have h: "map_of (dots (createFromString (newDiagram 6 5) ''O-215'')) 5 = None"
    using t2 o5 by blast
  have k: "barres (createFromString (newDiagram 6 5) ''O-215'') = [(1, Barre 1 (-1))]"
    using t2 unfolding bs by blast
  have l: "strings (createFromString (newDiagram 6 5) []) = 6"
    using t3 by (simp add: newDiagram_def)
  have c': "map_of (markers (createFromString (newDiagram 6 5) ''O-215'')) 0 = Some (Marker MarkerCIRCLE)"
    using c by simp
  have d': "map_of (markers (createFromString (newDiagram 6 5) ''O-215'')) 1 = None"
    using d by simp
  have e': "map_of (dots (createFromString (newDiagram 6 5) ''O-215'')) 2 = None"
    using e by simp
  have f': "map_of (dots (createFromString (newDiagram 6 5) ''O-215'')) 3 = Some [Dot (-1) DotNORMAL]"
    using f unfolding v3 by simp
  have g': "map_of (dots (createFromString (newDiagram 6 5) ''O-215'')) 4 = Some [Dot 3 DotNORMAL]"
    using g unfolding v4 by simp
  from t1 ev a b c' d' e' f' g' h k l show ?thesis by blast
qed

section \<open>The current format, written and read back\<close>

lemma set_map_erase: "set (map_erase k m) \<subseteq> set m"
  by (auto simp: map_erase_def)

lemma set_removeBarres_walk: "set (removeBarres_walk s f m) \<subseteq> set m"
  by (induction m) auto

lemma ordered_removeBarres_walk: "ordered m \<Longrightarrow> ordered (removeBarres_walk s f m)"
proof (induction m)
  case Nil
  then show ?case by simp
next
  case (Cons e es)
  have "\<forall>y\<in>set (removeBarres_walk s f es). fst e < fst y"
    using Cons.prems set_removeBarres_walk[of s f es] by (auto simp: ordered_def)
  moreover have "ordered (removeBarres_walk s f es)"
    using Cons by (simp add: ordered_def)
  ultimately show ?case by (simp add: ordered_def)
qed

lemma ordered3_removeDot: "ordered3 d \<Longrightarrow> ordered3 (removeDot s f d)"
  by (simp add: ordered3_def removeDot_def Let_def ordered_map_assign ordered_map_erase)

lemma ordered3_pushDot: "ordered3 d \<Longrightarrow> ordered3 (pushDot s x d)"
  by (simp add: ordered3_def pushDot_def ordered_map_assign)

lemma ordered3_removeBarres: "ordered3 d \<Longrightarrow> ordered3 (removeBarres s f d)"
  by (simp add: ordered3_def removeBarres_def ordered_removeBarres_walk)

lemma ordered3_setMarker: "ordered3 d \<Longrightarrow> ordered3 (setMarker s t d)"
proof -
  assume a: "ordered3 d"
  let ?d1 = "d\<lparr>markers := map_assign s (Marker t) (markers d)\<rparr>"
  have b: "ordered3 ?d1"
    using a by (simp add: ordered3_def ordered_map_assign)
  then have c: "ordered3 (removeBarres s 0 (removeDot s 0 ?d1))"
    by (intro ordered3_removeBarres ordered3_removeDot)
  have "setMarker s t d = d \<or> setMarker s t d = ?d1
      \<or> setMarker s t d = removeBarres s 0 (removeDot s 0 ?d1)"
    by (simp add: setMarker_def Let_def)
  with a b c show ?thesis by auto
qed

lemma ordered3_setDot: "ordered3 d \<Longrightarrow> ordered3 (setDot s f add dt d)"
proof -
  assume a: "ordered3 d"
  then have b: "ordered3 (d\<lparr>dots := map_assign s [] (dots d)\<rparr>)"
    by (simp add: ordered3_def ordered_map_assign)
  show ?thesis
    using a b
    by (auto simp: setDot_def ordered3_removeDot ordered3_pushDot ordered3_setMarker
        split: list.splits)
qed

lemma ordered3_setBarre: "ordered3 d \<Longrightarrow> ordered3 (setBarre ss es f d)"
  by (simp add: ordered3_def setBarre_def removeBarre_def ordered_map_assign ordered_map_erase)

lemma fold_keeps:
  assumes "\<And>x d. I d \<Longrightarrow> I (g x d)" and "I d"
  shows "I (fold g xs d)"
  using assms(2) by (induction xs arbitrary: d) (simp_all add: assms(1))

lemma ordered3_readNew_item: "ordered3 d \<Longrightarrow> ordered3 (readNew_item no i d)"
  by (cases i) (simp_all add: ordered3_setDot ordered3_setMarker)

lemma ordered3_readNew_elem: "ordered3 d \<Longrightarrow> ordered3 (readNew_elem e d)"
  by (cases e) (simp_all add: fold_keeps[where I = ordered3] ordered3_readNew_item ordered3_setBarre)

lemma ordered3_readNew: "ordered3 d \<Longrightarrow> ordered3 (readNew elems d)"
  by (simp add: readNew_def fold_keeps[where I = ordered3] ordered3_readNew_elem)

lemma ordered3_clear: "ordered3 (clear d)"
  by (simp add: ordered3_def clear_def ordered_Nil)

lemma marker_name_roundtrip [simp]: "nameToMarkerType (markerTypeToName t) = t"
  by (cases t) (simp_all add: nameToMarkerType_def markerTypeToName_def markerTypeNameMap_def)

lemma dot_name_roundtrip [simp]: "nameToDotType (dotTypeToName t) = t"
  by (cases t) (simp_all add: nameToDotType_def dotTypeToName_def dotTypeNameMap_def)

lemma ordered_distinct: "ordered m \<Longrightarrow> distinct (map fst m)"
  by (simp add: ordered_def strict_sorted_iff)

lemma map_of_filter_snd:
  "distinct (map fst m) \<Longrightarrow>
   map_of (filter (\<lambda>e. P (snd e)) m) k =
     (case map_of m k of None \<Rightarrow> None | Some v \<Rightarrow> if P v then Some v else None)"
proof (induction m)
  case Nil
  then show ?case by simp
next
  case (Cons e es)
  obtain a b where e: "e = (a, b)" by (cases e)
  have "map_of (filter (\<lambda>e. P (snd e)) es) a = None"
    using Cons.prems e by (auto simp: map_of_eq_None_iff)
  moreover have "map_of es a = None"
    using Cons.prems e by (auto simp: map_of_eq_None_iff)
  ultimately show ?case using Cons e by (auto split: option.splits)
qed

lemma setDot_fields [simp]:
  "strings (setDot s f add dt d) = strings d"
  "frets (setDot s f add dt d) = frets d"
  "fretOffset (setDot s f add dt d) = fretOffset d"
  by (auto simp: setDot_def split: list.splits)

lemma setDot_add_new:
  assumes "0 \<le> i" and "i < strings e" and "f \<noteq> 0"
    and "f \<notin> fret ` set (map_index (dots e) i)"
  shows "setDot i f True dt e = pushDot i (Dot f dt) e"
proof -
  have "dot e i f = [Dot 0 DotNORMAL]" using assms(3,4) by (rule dot_not_found)
  then show ?thesis using assms(1,2,3) by (simp add: setDot_def dot_exists_def)
qed

lemma read_dots_string:
  assumes "0 \<le> i" and "i < strings e"
    and "\<forall>x\<in>set xs. dot_exists x" and "distinct (map fret xs)"
    and "fret ` set xs \<inter> fret ` set (map_index (dots e) i) = {}"
  shows "markers (fold (\<lambda>x. setDot i (fret x) True (dtype x)) xs e) = markers e
    \<and> barres (fold (\<lambda>x. setDot i (fret x) True (dtype x)) xs e) = barres e
    \<and> map_of (dots (fold (\<lambda>x. setDot i (fret x) True (dtype x)) xs e)) =
        (if xs = [] then map_of (dots e) else (map_of (dots e))(i \<mapsto> map_index (dots e) i @ xs))"
  using assms(2,3,4,5)
proof (induction xs arbitrary: e)
  case Nil
  then show ?case by simp
next
  case (Cons x xs)
  have fx: "fret x \<noteq> 0" using Cons.prems(2) by (simp add: dot_exists_def)
  have nin: "fret x \<notin> fret ` set (map_index (dots e) i)" using Cons.prems(4) by auto
  have eq: "setDot i (fret x) True (dtype x) e = pushDot i x e"
    using setDot_add_new[OF assms(1) Cons.prems(1) fx nin, of "dtype x"] by simp
  let ?e = "pushDot i x e"
  have mi: "map_index (dots ?e) i = map_index (dots e) i @ [x]"
    by (simp add: pushDot_def)
  have p1: "i < strings ?e" using Cons.prems(1) by simp
  have p2: "\<forall>y\<in>set xs. dot_exists y" using Cons.prems(2) by simp
  have p3: "distinct (map fret xs)" using Cons.prems(3) by simp
  have p4: "fret ` set xs \<inter> fret ` set (map_index (dots ?e) i) = {}"
    using Cons.prems(3,4) by (auto simp: mi)
  note ih = Cons.IH[OF p1 p2 p3 p4]
  show ?case
    using ih by (auto simp: eq mi dots_pushDot)
qed

lemma fold_readNew_dots:
  "fold (readNew_item i) (map (\<lambda>x. NewDot (fret x) (dotTypeToName (dtype x))) xs) e =
   fold (\<lambda>x. setDot i (fret x) True (dtype x)) xs e"
  by (induction xs arbitrary: e) simp_all

lemma dotExists_iff: "\<forall>x\<in>set xs. dot_exists x \<Longrightarrow> dotExists xs \<longleftrightarrow> xs \<noteq> []"
  by (cases xs) (auto simp: dotExists_def)

lemma dot_all_stored:
  "map_of (dots d) i \<noteq> Some [] \<Longrightarrow> filter dot_exists (dot d i 0) = filter dot_exists (map_index (dots d) i)"
  by (auto simp: dot_def map_index_def dot_exists_def split: option.splits)

lemma dotExists_dot:
  assumes "\<forall>x\<in>set (map_index (dots d) i). dot_exists x"
  shows "dotExists (dot d i 0) \<longleftrightarrow> map_index (dots d) i \<noteq> []"
proof (cases "map_of (dots d) i")
  case None
  then show ?thesis by (simp add: dot_def map_index_def dotExists_def dot_exists_def)
next
  case (Some ds)
  then have "dot d i 0 = ds" "map_index (dots d) i = ds" by (simp_all add: dot_def map_index_def)
  then show ?thesis using assms dotExists_iff[of ds] by simp
qed

lemma read_string_elem:
  assumes i: "0 \<le> i" "i < strings d" and st: "strings e = strings d"
    and ex: "\<forall>x\<in>set (map_index (dots d) i). dot_exists x"
    and di: "distinct (map fret (map_index (dots d) i))"
    and ne: "map_of (dots d) i \<noteq> Some []"
    and e0: "map_of (dots e) i = None" "map_of (markers e) i = None" "barres e = []"
  shows "barres (fold readNew_elem (writeNew_string d i) e) = []
    \<and> strings (fold readNew_elem (writeNew_string d i) e) = strings d
    \<and> map_of (dots (fold readNew_elem (writeNew_string d i) e)) =
        (map_of (dots e))(i := map_of (dots d) i)
    \<and> map_of (markers (fold readNew_elem (writeNew_string d i) e)) =
        (map_of (markers e))(i := (case map_of (markers d) i of
            None \<Rightarrow> None | Some m \<Rightarrow> if marker_exists m then Some m else None))"
proof -
  define ds where "ds = map_index (dots d) i"
  have fl: "filter dot_exists (dot d i 0) = ds"
  proof -
    have "filter dot_exists (dot d i 0) = filter dot_exists ds"
      unfolding ds_def using ne by (rule dot_all_stored)
    also have "\<dots> = ds" using ex by (simp add: ds_def)
    finally show ?thesis .
  qed
  have de: "dotExists (dot d i 0) \<longleftrightarrow> ds \<noteq> []"
    unfolding ds_def using ex by (rule dotExists_dot)
  have dd: "map_of (dots d) i = (if ds = [] then None else Some ds)"
    using ne by (auto simp: ds_def map_index_def split: option.splits)
  define e1 where "e1 = (if marker_exists (marker d i) then setMarker i (mtype (marker d i)) e else e)"
  have e1s: "strings e1 = strings d" by (simp add: e1_def st)
  have e1b: "barres e1 = []" using e0(3) by (simp add: e1_def barres_setMarker)
  have e1d: "map_of (dots e1) = map_of (dots e)"
    using e0(1) by (auto simp: e1_def dots_setMarker)
  have mm: "Marker (mtype (marker d i)) = marker d i" by simp
  have e1m: "map_of (markers e1) =
      (map_of (markers e))(i := (case map_of (markers d) i of
            None \<Rightarrow> None | Some m \<Rightarrow> if marker_exists m then Some m else None))"
  proof (cases "marker_exists (marker d i)")
    case True
    then obtain m where m: "map_of (markers d) i = Some m" "marker d i = m"
      by (auto simp: marker_def marker_exists_def split: option.splits)
    from True have "map_of (markers e1) = (map_of (markers e))(i \<mapsto> marker d i)"
      using i st by (simp add: e1_def markers_setMarker)
    then show ?thesis using True m by simp
  next
    case False
    then have "(case map_of (markers d) i of
            None \<Rightarrow> None | Some m \<Rightarrow> if marker_exists m then Some m else None) = None"
      by (auto simp: marker_def split: option.splits)
    then show ?thesis using False e0(2) by (auto simp: e1_def)
  qed
  define e2 where "e2 = fold (\<lambda>x. setDot i (fret x) True (dtype x)) ds e1"
  have mi1: "map_index (dots e1) i = []" using e0(1) by (simp add: map_index_def e1d)
  have rd: "markers e2 = markers e1 \<and> barres e2 = barres e1
    \<and> map_of (dots e2) = (if ds = [] then map_of (dots e1) else (map_of (dots e1))(i \<mapsto> map_index (dots e1) i @ ds))"
    unfolding e2_def
    by (rule read_dots_string) (use i e1s ex di mi1 in \<open>simp_all add: ds_def\<close>)
  have e2s: "strings e2 = strings d"
    unfolding e2_def by (rule fold_keeps[where I = "\<lambda>x. strings x = strings d"]) (simp_all add: e1s)
  have e2d: "map_of (dots e2) = (map_of (dots e))(i := map_of (dots d) i)"
    using rd e0(1) by (auto simp: e1d mi1 dd)
  have res: "fold readNew_elem (writeNew_string d i) e = e2"
  proof (cases "\<not> dotExists (dot d i 0) \<and> \<not> marker_exists (marker d i)")
    case True
    then have "ds = []" using de by simp
    then show ?thesis using True by (simp add: writeNew_string_def Let_def e2_def e1_def)
  next
    case False
    then have "fold readNew_elem (writeNew_string d i) e =
        fold (readNew_item i)
          ((if marker_exists (marker d i) then [NewMarker (markerTypeToName (mtype (marker d i)))] else []) @
           map (\<lambda>x. NewDot (fret x) (dotTypeToName (dtype x))) ds) e"
      by (auto simp: writeNew_string_def Let_def fl)
    also have "\<dots> = e2"
      by (simp add: e2_def e1_def fold_readNew_dots)
    finally show ?thesis .
  qed
  show ?thesis
    unfolding res using rd e1b e2s e2d e1m by simp
qed

lemma read_strings:
  assumes "distinct ks"
    and "\<forall>i\<in>set ks. 0 \<le> i \<and> i < strings d \<and>
          (\<forall>x\<in>set (map_index (dots d) i). dot_exists x) \<and>
          distinct (map fret (map_index (dots d) i)) \<and> map_of (dots d) i \<noteq> Some []"
    and "strings e = strings d" and "barres e = []"
    and "\<forall>i\<in>set ks. map_of (dots e) i = None \<and> map_of (markers e) i = None"
  shows "barres (fold readNew_elem (concat (map (writeNew_string d) ks)) e) = []
    \<and> strings (fold readNew_elem (concat (map (writeNew_string d) ks)) e) = strings d
    \<and> (\<forall>k. map_of (dots (fold readNew_elem (concat (map (writeNew_string d) ks)) e)) k =
          (if k \<in> set ks then map_of (dots d) k else map_of (dots e) k))
    \<and> (\<forall>k. map_of (markers (fold readNew_elem (concat (map (writeNew_string d) ks)) e)) k =
          (if k \<in> set ks
           then (case map_of (markers d) k of
                   None \<Rightarrow> None | Some m \<Rightarrow> if marker_exists m then Some m else None)
           else map_of (markers e) k))"
  using assms(1,3,4,5,2)
proof (induction ks arbitrary: e)
  case Nil
  then show ?case by simp
next
  case (Cons i ks)
  let ?e = "fold readNew_elem (writeNew_string d i) e"
  have wi: "0 \<le> i" "i < strings d" "\<forall>x\<in>set (map_index (dots d) i). dot_exists x"
    "distinct (map fret (map_index (dots d) i))" "map_of (dots d) i \<noteq> Some []"
    using Cons.prems(5) by simp_all
  have e0: "map_of (dots e) i = None" "map_of (markers e) i = None"
    using Cons.prems(4) by simp_all
  note one = read_string_elem[OF wi(1,2) Cons.prems(2) wi(3,4,5) e0 Cons.prems(3)]
  have p1: "distinct ks" and ni: "i \<notin> set ks" using Cons.prems(1) by simp_all
  have p2: "strings ?e = strings d" using one by simp
  have p3: "barres ?e = []" using one by simp
  have p4: "\<forall>j\<in>set ks. map_of (dots ?e) j = None \<and> map_of (markers ?e) j = None"
  proof
    fix j assume j: "j \<in> set ks"
    then have "j \<noteq> i" using ni by auto
    then show "map_of (dots ?e) j = None \<and> map_of (markers ?e) j = None"
      using one Cons.prems(4) j by simp
  qed
  have p5: "\<forall>i\<in>set ks. 0 \<le> i \<and> i < strings d \<and>
          (\<forall>x\<in>set (map_index (dots d) i). dot_exists x) \<and>
          distinct (map fret (map_index (dots d) i)) \<and> map_of (dots d) i \<noteq> Some []"
    using Cons.prems(5) by simp
  note ih = Cons.IH[OF p1 p2 p3 p4 p5]
  have fo: "fold readNew_elem (concat (map (writeNew_string d) (i # ks))) e =
      fold readNew_elem (concat (map (writeNew_string d) ks)) ?e"
    by simp
  have dk: "map_of (dots (fold readNew_elem (concat (map (writeNew_string d) ks)) ?e)) k =
          (if k \<in> set (i # ks) then map_of (dots d) k else map_of (dots e) k)" for k
  proof (cases "k \<in> set ks")
    case True
    then show ?thesis using ih by simp
  next
    case False
    then show ?thesis using ih one by simp
  qed
  have mk: "map_of (markers (fold readNew_elem (concat (map (writeNew_string d) ks)) ?e)) k =
          (if k \<in> set (i # ks)
           then (case map_of (markers d) k of
                   None \<Rightarrow> None | Some m \<Rightarrow> if marker_exists m then Some m else None)
           else map_of (markers e) k)" for k
  proof (cases "k \<in> set ks")
    case True
    then show ?thesis using ih by simp
  next
    case False
    then show ?thesis using ih one by simp
  qed
  show ?case unfolding fo using ih dk mk by blast
qed

lemma read_barres:
  assumes "distinct fs"
    and "\<forall>f\<in>set fs. barre_exists (barre d f) \<longrightarrow>
          startString (barre d f) < strings e \<and> -1 \<le> endString (barre d f) \<and>
          endString (barre d f) < strings e"
  shows "dots (fold readNew_elem (concat (map (writeNew_barre d) fs)) e) = dots e
    \<and> markers (fold readNew_elem (concat (map (writeNew_barre d) fs)) e) = markers e
    \<and> strings (fold readNew_elem (concat (map (writeNew_barre d) fs)) e) = strings e
    \<and> (\<forall>k. map_of (barres (fold readNew_elem (concat (map (writeNew_barre d) fs)) e)) k =
          (if k \<in> set fs \<and> barre_exists (barre d k) then Some (barre d k)
           else map_of (barres e) k))"
  using assms
proof (induction fs arbitrary: e)
  case Nil
  then show ?case by simp
next
  case (Cons f fs)
  let ?e = "fold readNew_elem (writeNew_barre d f) e"
  have one: "dots ?e = dots e \<and> markers ?e = markers e \<and> strings ?e = strings e
      \<and> map_of (barres ?e) =
          (if barre_exists (barre d f) then (map_of (barres e))(f \<mapsto> barre d f)
           else map_of (barres e))"
  proof (cases "barre_exists (barre d f)")
    case True
    then have r: "0 \<le> startString (barre d f)" "startString (barre d f) \<noteq> -1"
      "startString (barre d f) < strings e" "-1 \<le> endString (barre d f)"
      "endString (barre d f) < strings e"
      using Cons.prems(2) by (simp_all add: barre_exists_def)
    have "Barre (startString (barre d f)) (endString (barre d f)) = barre d f" by simp
    then show ?thesis
      using True r by (simp add: writeNew_barre_def Let_def setBarre_def map_of_map_assign)
  next
    case False
    then show ?thesis by (simp add: writeNew_barre_def Let_def)
  qed
  have p1: "distinct fs" and ni: "f \<notin> set fs" using Cons.prems(1) by simp_all
  have p2: "\<forall>f\<in>set fs. barre_exists (barre d f) \<longrightarrow>
          startString (barre d f) < strings ?e \<and> -1 \<le> endString (barre d f) \<and>
          endString (barre d f) < strings ?e"
    using Cons.prems(2) one by simp
  note ih = Cons.IH[OF p1 p2]
  have fo: "fold readNew_elem (concat (map (writeNew_barre d) (f # fs))) e =
      fold readNew_elem (concat (map (writeNew_barre d) fs)) ?e"
    by simp
  have bk: "map_of (barres (fold readNew_elem (concat (map (writeNew_barre d) fs)) ?e)) k =
          (if k \<in> set (f # fs) \<and> barre_exists (barre d k) then Some (barre d k)
           else map_of (barres e) k)" for k
  proof -
    have onek: "map_of (barres ?e) k =
        (if k = f \<and> barre_exists (barre d f) then Some (barre d f) else map_of (barres e) k)"
      using one by simp
    have ihk: "map_of (barres (fold readNew_elem (concat (map (writeNew_barre d) fs)) ?e)) k =
          (if k \<in> set fs \<and> barre_exists (barre d k) then Some (barre d k)
           else map_of (barres ?e) k)"
      using ih by blast
    show ?thesis
    proof (cases "k \<in> set fs")
      case True
      then have "k \<noteq> f" using ni by auto
      then show ?thesis unfolding ihk onek using True by simp
    next
      case False
      then show ?thesis unfolding ihk onek by auto
    qed
  qed
  have rest: "dots (fold readNew_elem (concat (map (writeNew_barre d) fs)) ?e) = dots e
    \<and> markers (fold readNew_elem (concat (map (writeNew_barre d) fs)) ?e) = markers e
    \<and> strings (fold readNew_elem (concat (map (writeNew_barre d) fs)) ?e) = strings e"
    using ih one by simp
  show ?case unfolding fo using rest bk by blast
qed

lemma readNew_frets:
  "frets (readNew elems e) = frets e \<and> fretOffset (readNew elems e) = fretOffset e
   \<and> strings (readNew elems e) = strings e"
proof -
  have item: "frets (readNew_item no i x) = frets x \<and> fretOffset (readNew_item no i x) = fretOffset x
      \<and> strings (readNew_item no i x) = strings x" for no i x
    by (cases i) simp_all
  have items: "frets (fold (readNew_item no) is x) = frets x
      \<and> fretOffset (fold (readNew_item no) is x) = fretOffset x
      \<and> strings (fold (readNew_item no) is x) = strings x" for no "is" x
    by (induction "is" arbitrary: x) (simp_all add: item)
  have elem: "frets (readNew_elem el x) = frets x \<and> fretOffset (readNew_elem el x) = fretOffset x
      \<and> strings (readNew_elem el x) = strings x" for el x
    by (cases el) (simp_all add: items)
  show ?thesis
    unfolding readNew_def by (induction elems arbitrary: e) (simp_all add: elem)
qed

text \<open>
  C2 (as stated, refuted): one dot set with \<^verbatim>\<open>setDot(0, 1)\<close> on a fresh diagram leaves a
  marker of type NONE under key 0; \<^verbatim>\<open>writeNew\<close> writes no marker for it, so the markers
  map read back into a fresh diagram of the same counts is empty and differs.
\<close>

theorem writeNew_readNew_counterexample:
  "markers (setDot 0 1 False DotNORMAL (newDiagram 6 4)) = [(0, Marker MarkerNONE)]
   \<and> markers (readNew (writeNew (setDot 0 1 False DotNORMAL (newDiagram 6 4)))
        (clear (setDot 0 1 False DotNORMAL (newDiagram 6 4)))) = []"
  by code_simp

text \<open>
  C2 (amended): for every diagram whose maps are in key order, whose dots sit on strings
  of the diagram, exist and have pairwise different frets per string, whose markers sit on
  strings of the diagram and whose barres sit on frets 1 to the fret count with end points
  in range, writing with \<^verbatim>\<open>writeNew\<close> and reading back with \<^verbatim>\<open>readNew\<close> into the
  cleared diagram of the same counts reproduces the dots map and the barres map exactly
  and the markers map without its entries of type NONE; when the markers map holds no
  entry of type NONE the diagram read back equals the one written. This covers the empty
  diagram, one dot added with \<open>add\<close>, one marker and no dots, and a barre with a dot on
  its own fret and string.
\<close>

theorem writeNew_readNew_roundtrip:
  assumes "roundtrip_wf d"
  shows "dots (readNew (writeNew d) (clear d)) = dots d
    \<and> barres (readNew (writeNew d) (clear d)) = barres d
    \<and> markers (readNew (writeNew d) (clear d)) = filter (\<lambda>e. marker_exists (snd e)) (markers d)
    \<and> ((\<forall>e\<in>set (markers d). marker_exists (snd e)) \<longrightarrow> readNew (writeNew d) (clear d) = d)"
proof -
  define S where "S = fold readNew_elem (concat (map (writeNew_string d) [0..strings d - 1])) (clear d)"
  define R where "R = readNew (writeNew d) (clear d)"
  have R: "R = fold readNew_elem (concat (map (writeNew_barre d) [1..frets d])) S"
    by (simp add: R_def S_def readNew_def writeNew_def)
  have od: "ordered (dots d)" "ordered (markers d)" "ordered (barres d)"
    using assms by (simp_all add: roundtrip_wf_def)
  have wd: "\<forall>e\<in>set (dots d). 0 \<le> fst e \<and> fst e < strings d \<and> snd e \<noteq> [] \<and>
         (\<forall>x \<in> set (snd e). dot_exists x) \<and> distinct (map fret (snd e))"
    using assms by (simp add: roundtrip_wf_def)
  have wm: "\<forall>e\<in>set (markers d). 0 \<le> fst e \<and> fst e < strings d"
    using assms by (simp add: roundtrip_wf_def)
  have wb: "\<forall>e\<in>set (barres d). 1 \<le> fst e \<and> fst e \<le> frets d \<and>
         0 \<le> startString (snd e) \<and> startString (snd e) < strings d \<and>
         -1 \<le> endString (snd e) \<and> endString (snd e) < strings d"
    using assms by (simp add: roundtrip_wf_def)
  have ws: "(\<forall>x\<in>set (map_index (dots d) i). dot_exists x) \<and>
          distinct (map fret (map_index (dots d) i)) \<and> map_of (dots d) i \<noteq> Some []" for i
  proof (cases "map_of (dots d) i")
    case None
    then show ?thesis by (simp add: map_index_def)
  next
    case (Some ds)
    then have "(i, ds) \<in> set (dots d)" by (rule map_of_SomeD)
    with wd have "ds \<noteq> [] \<and> (\<forall>x \<in> set ds. dot_exists x) \<and> distinct (map fret ds)" by fastforce
    then show ?thesis using Some by (simp add: map_index_def)
  qed
  have pre: "\<forall>i\<in>set [0..strings d - 1]. 0 \<le> i \<and> i < strings d \<and>
          (\<forall>x\<in>set (map_index (dots d) i). dot_exists x) \<and>
          distinct (map fret (map_index (dots d) i)) \<and> map_of (dots d) i \<noteq> Some []"
    using ws by simp
  have s: "barres S = [] \<and> strings S = strings d
    \<and> (\<forall>k. map_of (dots S) k =
          (if k \<in> set [0..strings d - 1] then map_of (dots d) k else map_of (dots (clear d)) k))
    \<and> (\<forall>k. map_of (markers S) k =
          (if k \<in> set [0..strings d - 1]
           then (case map_of (markers d) k of
                   None \<Rightarrow> None | Some m \<Rightarrow> if marker_exists m then Some m else None)
           else map_of (markers (clear d)) k))"
    unfolding S_def
    by (rule read_strings) (use pre in \<open>simp_all add: clear_def\<close>)
  have dk: "map_of (dots d) k = None" if "\<not> (0 \<le> k \<and> k < strings d)" for k
  proof (rule ccontr)
    assume "map_of (dots d) k \<noteq> None"
    then obtain ds where "map_of (dots d) k = Some ds" by auto
    then have "(k, ds) \<in> set (dots d)" by (rule map_of_SomeD)
    with wd that show False by fastforce
  qed
  have mk: "map_of (markers d) k = None" if "\<not> (0 \<le> k \<and> k < strings d)" for k
  proof (rule ccontr)
    assume "map_of (markers d) k \<noteq> None"
    then obtain m where "map_of (markers d) k = Some m" by auto
    then have "(k, m) \<in> set (markers d)" by (rule map_of_SomeD)
    with wm that show False by fastforce
  qed
  have sd: "map_of (dots S) = map_of (dots d)"
  proof
    fix k show "map_of (dots S) k = map_of (dots d) k"
      using s dk[of k] by (auto simp: clear_def)
  qed
  have sm: "map_of (markers S) = map_of (filter (\<lambda>e. marker_exists (snd e)) (markers d))"
  proof
    fix k show "map_of (markers S) k = map_of (filter (\<lambda>e. marker_exists (snd e)) (markers d)) k"
      using s mk[of k]
      by (auto simp: clear_def map_of_filter_snd[OF ordered_distinct[OF od(2)]])
  qed
  have bex: "barre_exists (barre d f) \<longleftrightarrow> map_of (barres d) f \<noteq> None" for f
  proof (cases "map_of (barres d) f")
    case None
    then show ?thesis by (simp add: barre_def barre_exists_def)
  next
    case (Some b)
    then have "(f, b) \<in> set (barres d)" by (rule map_of_SomeD)
    with wb have "0 \<le> startString b" by fastforce
    then show ?thesis using Some by (simp add: barre_def barre_exists_def)
  qed
  have bpre: "\<forall>f\<in>set [1..frets d]. barre_exists (barre d f) \<longrightarrow>
          startString (barre d f) < strings S \<and> -1 \<le> endString (barre d f) \<and>
          endString (barre d f) < strings S"
  proof (intro ballI impI)
    fix f assume "barre_exists (barre d f)"
    then obtain b where b: "map_of (barres d) f = Some b" using bex by auto
    then have "(f, b) \<in> set (barres d)" by (rule map_of_SomeD)
    with wb have "startString b < strings d \<and> -1 \<le> endString b \<and> endString b < strings d"
      by fastforce
    then show "startString (barre d f) < strings S \<and> -1 \<le> endString (barre d f) \<and>
          endString (barre d f) < strings S"
      using b s by (simp add: barre_def)
  qed
  have r: "dots R = dots S \<and> markers R = markers S \<and> strings R = strings S
    \<and> (\<forall>k. map_of (barres R) k =
          (if k \<in> set [1..frets d] \<and> barre_exists (barre d k) then Some (barre d k)
           else map_of (barres S) k))"
    unfolding R by (rule read_barres) (use bpre in simp_all)
  have rb: "map_of (barres R) = map_of (barres d)"
  proof
    fix k
    show "map_of (barres R) k = map_of (barres d) k"
    proof (cases "map_of (barres d) k")
      case None
      then have "\<not> barre_exists (barre d k)" using bex by simp
      then show ?thesis using r s None by simp
    next
      case (Some b)
      then have "(k, b) \<in> set (barres d)" by (rule map_of_SomeD)
      with wb have "1 \<le> k \<and> k \<le> frets d" by fastforce
      moreover have "barre_exists (barre d k)" using bex Some by simp
      moreover have "barre d k = b" using Some by (simp add: barre_def)
      ultimately show ?thesis using r Some by simp
    qed
  qed
  have o3: "ordered3 R" unfolding R_def by (rule ordered3_readNew) (rule ordered3_clear)
  then have oR: "ordered (dots R)" "ordered (markers R)" "ordered (barres R)"
    by (simp_all add: ordered3_def)
  have A: "dots R = dots d"
    using oR(1) od(1) r sd by (intro ordered_map_of_eq) simp_all
  have B: "barres R = barres d"
    using oR(3) od(3) rb by (intro ordered_map_of_eq) simp_all
  have C: "markers R = filter (\<lambda>e. marker_exists (snd e)) (markers d)"
    using oR(2) ordered_filter[OF od(2)] r sm by (intro ordered_map_of_eq) simp_all
  have D: "R = d" if "\<forall>e\<in>set (markers d). marker_exists (snd e)"
  proof -
    from that have "filter (\<lambda>e. marker_exists (snd e)) (markers d) = markers d" by simp
    with C have "markers R = markers d" by simp
    moreover have "frets R = frets d \<and> fretOffset R = fretOffset d \<and> strings R = strings d"
      unfolding R_def using readNew_frets[of "writeNew d" "clear d"] by (simp add: clear_def)
    ultimately show ?thesis using A B by simp
  qed
  from A B C D show ?thesis unfolding R_def by blast
qed

theorem writeNew_readNew_roundtrip_witness:
  "readNew
     (writeNew (setDot 0 1 True DotNORMAL (setBarre 0 (-1) 1 (setMarker 3 MarkerCROSS (newDiagram 6 4)))))
     (clear (setDot 0 1 True DotNORMAL (setBarre 0 (-1) 1 (setMarker 3 MarkerCROSS (newDiagram 6 4)))))
   = setDot 0 1 True DotNORMAL (setBarre 0 (-1) 1 (setMarker 3 MarkerCROSS (newDiagram 6 4)))
   \<and> readNew (writeNew (newDiagram 6 4)) (clear (newDiagram 6 4)) = newDiagram 6 4"
proof -
  define d where "d = setDot 0 1 True DotNORMAL (setBarre 0 (-1) 1 (setMarker 3 MarkerCROSS (newDiagram 6 4)))"
  have pre: "roundtrip_wf d" unfolding d_def by code_simp
  have nn: "\<forall>e\<in>set (markers d). marker_exists (snd e)" unfolding d_def by code_simp
  have pre0: "roundtrip_wf (newDiagram 6 4)" by code_simp
  have nn0: "\<forall>e\<in>set (markers (newDiagram 6 4)). marker_exists (snd e)" by code_simp
  from writeNew_readNew_roundtrip [OF pre] nn have a: "readNew (writeNew d) (clear d) = d" by blast
  from writeNew_readNew_roundtrip [OF pre0] nn0
  have b: "readNew (writeNew (newDiagram 6 4)) (clear (newDiagram 6 4)) = newDiagram 6 4" by blast
  from a b show ?thesis unfolding d_def by simp
qed

section \<open>The legacy format and its barre flag\<close>

text \<open>The first loop of \<^verbatim>\<open>writeOld\<close>: the lowest dotted fret and the leftmost string on it.\<close>

lemma lowest_step_skip: "\<not> dot_exists x \<Longrightarrow> lowest_step i x acc = acc"
  by (simp add: lowest_step_def)

lemma fold_lowest_step_skip:
  "\<forall>x\<in>set xs. \<not> dot_exists x \<Longrightarrow> fold (lowest_step i) xs acc = acc"
  by (induction xs arbitrary: acc) (simp_all add: lowest_step_skip)

lemma dotExists_ex: "dotExists xs \<longleftrightarrow> (\<exists>x\<in>set xs. dot_exists x)"
  by (induction xs) (auto simp: dotExists_def)

lemma lowest_string_fold: "lowest_string d i acc = fold (lowest_step i) (dot d i 0) acc"
  by (auto simp: lowest_string_def Let_def dotExists_ex fold_lowest_step_skip)

lemma lowest_step_of:
  assumes "lowest_of S acc" and "\<forall>p\<in>S. 0 \<le> fst p \<and> 0 < snd p" and "0 \<le> i"
  shows "lowest_of (if dot_exists x then insert (i, fret x) S else S) (lowest_step i x acc)"
proof (cases "dot_exists x")
  case False
  then show ?thesis using assms(1) by (simp add: lowest_step_def)
next
  case True
  then have fx: "0 < fret x" by (simp add: dot_exists_def)
  obtain lo le where acc: "acc = (lo, le)" by (cases acc)
  show ?thesis
  proof (cases "S = {}")
    case e: True
    then have "acc = (-1, -1)" using assms(1) by (auto simp: lowest_of_def)
    then show ?thesis using True e by (simp add: lowest_step_def lowest_of_def)
  next
    case ne: False
    then have in_S: "(le, lo) \<in> S"
      and all: "\<forall>p\<in>S. lo \<le> snd p \<and> (snd p = lo \<longrightarrow> le \<le> fst p)"
      using assms(1) by (auto simp: lowest_of_def acc)
    from in_S assms(2) have pos: "0 < lo" "0 \<le> le" by force+
    show ?thesis
    proof (cases "fret x < lo")
      case lt: True
      then have st: "lowest_step i x acc = (fret x, i)"
        using True by (simp add: lowest_step_def acc)
      show ?thesis unfolding st using True lt all by (fastforce simp: lowest_of_def)
    next
      case nlt: False
      show ?thesis
      proof (cases "fret x = lo \<and> i < le")
        case eq: True
        then have st: "lowest_step i x acc = (lo, i)"
          using True pos by (simp add: lowest_step_def acc)
        show ?thesis unfolding st using True eq all by (fastforce simp: lowest_of_def)
      next
        case other: False
        then have st: "lowest_step i x acc = acc"
          using True nlt pos by (auto simp: lowest_step_def acc)
        show ?thesis unfolding st using True other nlt all in_S
          by (fastforce simp: lowest_of_def acc)
      qed
    qed
  qed
qed

lemma fold_lowest_step_of:
  assumes "lowest_of S acc" and "\<forall>p\<in>S. 0 \<le> fst p \<and> 0 < snd p" and "0 \<le> i"
  shows "lowest_of (S \<union> {(i, fret x) | x. x \<in> set xs \<and> dot_exists x}) (fold (lowest_step i) xs acc)"
  using assms(1,2)
proof (induction xs arbitrary: S acc)
  case Nil
  then show ?case by simp
next
  case (Cons x xs)
  let ?S = "if dot_exists x then insert (i, fret x) S else S"
  have a: "lowest_of ?S (lowest_step i x acc)"
    by (rule lowest_step_of[OF Cons.prems(1,2) assms(3)])
  have b: "\<forall>p\<in>?S. 0 \<le> fst p \<and> 0 < snd p"
    using Cons.prems(2) assms(3) by (auto simp: dot_exists_def)
  have eq: "?S \<union> {(i, fret y) | y. y \<in> set xs \<and> dot_exists y} =
      S \<union> {(i, fret y) | y. y \<in> set (x # xs) \<and> dot_exists y}"
    by auto
  from Cons.IH[OF a b] show ?case unfolding eq by simp
qed

lemma fold_lowest_string_of:
  assumes "lowest_of S acc" and "\<forall>p\<in>S. 0 \<le> fst p \<and> 0 < snd p" and "\<forall>i\<in>set ks. 0 \<le> i"
  shows "lowest_of (S \<union> {(i, fret x) | i x. i \<in> set ks \<and> x \<in> set (dot d i 0) \<and> dot_exists x})
           (fold (lowest_string d) ks acc)"
  using assms
proof (induction ks arbitrary: S acc)
  case Nil
  then show ?case by simp
next
  case (Cons k ks)
  let ?S = "S \<union> {(k, fret x) | x. x \<in> set (dot d k 0) \<and> dot_exists x}"
  have k: "0 \<le> k" using Cons.prems(3) by simp
  have a: "lowest_of ?S (lowest_string d k acc)"
    unfolding lowest_string_fold by (rule fold_lowest_step_of[OF Cons.prems(1,2) k])
  have b: "\<forall>p\<in>?S. 0 \<le> fst p \<and> 0 < snd p"
    using Cons.prems(2) k by (auto simp: dot_exists_def)
  have c: "\<forall>i\<in>set ks. 0 \<le> i" using Cons.prems(3) by simp
  have eq: "?S \<union> {(i, fret x) | i x. i \<in> set ks \<and> x \<in> set (dot d i 0) \<and> dot_exists x} =
      S \<union> {(i, fret x) | i x. i \<in> set (k # ks) \<and> x \<in> set (dot d i 0) \<and> dot_exists x}"
    by auto
  from Cons.IH[OF a b c] show ?case unfolding eq by simp
qed

lemma lowestDot_of: "lowest_of {(i, f). dotted d i f} (lowestDot d)"
proof -
  have a: "lowest_of {} (-1, -1)" by (simp add: lowest_of_def)
  have eq: "{} \<union> {(i, fret x) | i x. i \<in> set [0..strings d - 1] \<and> x \<in> set (dot d i 0) \<and> dot_exists x}
      = {(i, f). dotted d i f}"
    by (auto simp: dotted_def)
  from fold_lowest_string_of[OF a, of "[0..strings d - 1]" d]
  show ?thesis unfolding eq lowestDot_def by simp
qed

lemma lowestDot_none:
  "\<not> (\<exists>i f. dotted d i f) \<Longrightarrow> lowestDot d = (-1, -1)"
  using lowestDot_of[of d] by (auto simp: lowest_of_def)

lemma lowestDot_some:
  assumes "dotted d i f"
  shows "lowest_fret d (fst (lowestDot d)) \<and> leftmost_on d (fst (lowestDot d)) (snd (lowestDot d))"
proof -
  from assms have ne: "{(i, f). dotted d i f} \<noteq> {}" by auto
  with lowestDot_of[of d]
  have a: "dotted d (snd (lowestDot d)) (fst (lowestDot d))"
    and b: "\<forall>p\<in>{(i, f). dotted d i f}. fst (lowestDot d) \<le> snd p \<and>
          (snd p = fst (lowestDot d) \<longrightarrow> snd (lowestDot d) \<le> fst p)"
    by (auto simp: lowest_of_def)
  from b have b1: "fst (lowestDot d) \<le> g" if "dotted d j g" for j g using that by force
  from b have b2: "snd (lowestDot d) \<le> j" if "dotted d j (fst (lowestDot d))" for j
    using that by force
  show ?thesis using a b1 b2 by (auto simp: lowest_fret_def leftmost_on_def)
qed

lemma lowest_fret_unique: "lowest_fret d L \<Longrightarrow> lowest_fret d L' \<Longrightarrow> L = L'"
  by (auto simp: lowest_fret_def intro: antisym)

lemma leftmost_on_unique: "leftmost_on d L l \<Longrightarrow> leftmost_on d L l' \<Longrightarrow> l = l'"
  by (auto simp: leftmost_on_def intro: antisym)

text \<open>The second loop: the first barre that passes the test.\<close>

lemma findBarre_none:
  "\<forall>e\<in>set m. \<not> legacy_cond lo le e \<Longrightarrow> findBarre lo le m = (-1, -1)"
  by (induction m) (auto simp: legacy_cond_def)

lemma findBarre_first:
  "\<forall>x\<in>set pre. \<not> legacy_cond lo le x \<Longrightarrow> legacy_cond lo le e \<Longrightarrow>
   findBarre lo le (pre @ e # post) = (startString (snd e), fst e)"
  by (induction pre) (auto simp: legacy_cond_def)

lemma findBarre_cases:
  "findBarre lo le m = (-1, -1) \<and> (\<forall>e\<in>set m. \<not> legacy_cond lo le e)
   \<or> (\<exists>e\<in>set m. legacy_cond lo le e \<and> findBarre lo le m = (startString (snd e), fst e))"
  by (induction m) (auto simp: legacy_cond_def)

lemma cond_qualifies:
  assumes "dotted d i f"
  shows "legacy_cond (fst (lowestDot d)) (snd (lowestDot d)) e \<longleftrightarrow> qualifies d (fst e) (snd e)"
proof -
  note lo = lowestDot_some[OF assms]
  show ?thesis
  proof
    assume "legacy_cond (fst (lowestDot d)) (snd (lowestDot d)) e"
    then show "qualifies d (fst e) (snd e)"
      using lo unfolding legacy_cond_def qualifies_def by blast
  next
    assume q: "qualifies d (fst e) (snd e)"
    then obtain L l where L: "lowest_fret d L" "leftmost_on d L l" "fst e \<le> L"
      "\<not> (fst e = L \<and> l < startString (snd e))"
      and b: "barre_exists (snd e)" "endString (snd e) = -1"
      unfolding qualifies_def by blast
    have "L = fst (lowestDot d)" using L(1) lo by (auto intro: lowest_fret_unique)
    moreover then have "l = snd (lowestDot d)" using L(2) lo by (auto intro: leftmost_on_unique)
    ultimately show "legacy_cond (fst (lowestDot d)) (snd (lowestDot d)) e"
      using L b by (simp add: legacy_cond_def)
  qed
qed

lemma qualifies_dotted: "qualifies d f b \<Longrightarrow> \<exists>i g. dotted d i g"
  unfolding qualifies_def lowest_fret_def by blast

lemma writeOld_flag:
  "TagBarre True \<in> set (writeOld d) \<longleftrightarrow> 0 < snd (writeOld_barre d)"
  by (auto simp: writeOld_def Let_def writeOld_string_def)

lemma writeOld_flag_iff:
  assumes "\<forall>e\<in>set (barres d). 1 \<le> fst e"
  shows "TagBarre True \<in> set (writeOld d) \<longleftrightarrow> (\<exists>e\<in>set (barres d). qualifies d (fst e) (snd e))"
proof (cases "\<exists>i f. dotted d i f")
  case False
  then have "lowestDot d = (-1, -1)" by (rule lowestDot_none)
  then have "\<forall>e\<in>set (barres d). \<not> legacy_cond (fst (lowestDot d)) (snd (lowestDot d)) e"
    using assms by (auto simp: legacy_cond_def)
  then have "writeOld_barre d = (-1, -1)"
    unfolding writeOld_barre_def by (rule findBarre_none)
  moreover have "\<not> (\<exists>e\<in>set (barres d). qualifies d (fst e) (snd e))"
    using False qualifies_dotted by blast
  ultimately show ?thesis by (simp add: writeOld_flag)
next
  case True
  then obtain i f where df: "dotted d i f" by blast
  note cq = cond_qualifies[OF df]
  from findBarre_cases[of "fst (lowestDot d)" "snd (lowestDot d)" "barres d"]
  show ?thesis
  proof
    assume a: "findBarre (fst (lowestDot d)) (snd (lowestDot d)) (barres d) = (-1, -1) \<and>
      (\<forall>e\<in>set (barres d). \<not> legacy_cond (fst (lowestDot d)) (snd (lowestDot d)) e)"
    then show ?thesis by (simp add: writeOld_flag writeOld_barre_def cq)
  next
    assume "\<exists>e\<in>set (barres d). legacy_cond (fst (lowestDot d)) (snd (lowestDot d)) e \<and>
      findBarre (fst (lowestDot d)) (snd (lowestDot d)) (barres d) = (startString (snd e), fst e)"
    then obtain e where e: "e \<in> set (barres d)"
      "legacy_cond (fst (lowestDot d)) (snd (lowestDot d)) e"
      "writeOld_barre d = (startString (snd e), fst e)"
      by (auto simp: writeOld_barre_def)
    then have "0 < snd (writeOld_barre d)" using assms by force
    moreover have "qualifies d (fst e) (snd e)" using e(2) cq by simp
    ultimately show ?thesis using e(1) by (auto simp: writeOld_flag)
  qed
qed

lemma writeOld_string_start:
  "writeOld_string d bs bf bs =
     [TagString bs
        ((if marker_exists (marker d bs)
          then [OldMarker (of_char (markerToChar (mtype (marker d bs))))] else []) @
         map (\<lambda>x. OldDot (fret x)) (filter (\<lambda>x. dot_exists x \<and> fret x \<noteq> bf) (dot d bs 0)) @
         [OldDot bf])]"
  by (simp add: writeOld_string_def Let_def)

lemma writeOld_synthetic:
  assumes "TagBarre True \<in> set (writeOld d)"
  shows "\<exists>e\<in>set (barres d). qualifies d (fst e) (snd e) \<and> 0 < fst e \<and>
           writeOld_barre d = (startString (snd e), fst e) \<and>
           (startString (snd e) < strings d \<longrightarrow>
            TagString (startString (snd e))
              ((if marker_exists (marker d (startString (snd e)))
                then [OldMarker (of_char (markerToChar (mtype (marker d (startString (snd e))))))]
                else []) @
               map (\<lambda>x. OldDot (fret x))
                 (filter (\<lambda>x. dot_exists x \<and> fret x \<noteq> fst e) (dot d (startString (snd e)) 0)) @
               [OldDot (fst e)]) \<in> set (writeOld d))"
proof -
  from assms have pos: "0 < snd (writeOld_barre d)" by (simp add: writeOld_flag)
  from findBarre_cases[of "fst (lowestDot d)" "snd (lowestDot d)" "barres d"] pos
  obtain e where e: "e \<in> set (barres d)"
    "legacy_cond (fst (lowestDot d)) (snd (lowestDot d)) e"
    "writeOld_barre d = (startString (snd e), fst e)"
    by (auto simp: writeOld_barre_def)
  have fe: "0 < fst e" using pos e(3) by simp
  have "fst (lowestDot d) \<noteq> -1" using e(2) fe by (auto simp: legacy_cond_def)
  then have "\<exists>i f. dotted d i f"
  proof (rule contrapos_np)
    assume "\<not> (\<exists>i f. dotted d i f)"
    then have "lowestDot d = (-1, -1)" by (rule lowestDot_none)
    then show "fst (lowestDot d) = -1" by simp
  qed
  then obtain i f where "dotted d i f" by blast
  then have q: "qualifies d (fst e) (snd e)" using e(2) cond_qualifies by blast
  have st: "0 \<le> startString (snd e)" using e(2) by (simp add: legacy_cond_def barre_exists_def)
  have mem: "TagString (startString (snd e))
              ((if marker_exists (marker d (startString (snd e)))
                then [OldMarker (of_char (markerToChar (mtype (marker d (startString (snd e))))))]
                else []) @
               map (\<lambda>x. OldDot (fret x))
                 (filter (\<lambda>x. dot_exists x \<and> fret x \<noteq> fst e) (dot d (startString (snd e)) 0)) @
               [OldDot (fst e)]) \<in> set (writeOld d)"
    if "startString (snd e) < strings d"
  proof -
    have "startString (snd e) \<in> set [0..strings d - 1]" using st that by simp
    then have "set (writeOld_string d (startString (snd e)) (fst e) (startString (snd e)))
        \<subseteq> set (writeOld d)"
      by (auto simp: writeOld_def Let_def e(3))
    then show ?thesis by (simp add: writeOld_string_start)
  qed
  show ?thesis using e(1,3) q fe mem by blast
qed

text \<open>The legacy reader.\<close>

lemma barres_setDot [simp]: "barres (setDot s f add dt d) = barres d"
  by (auto simp: setDot_def barres_setMarker split: list.splits)

lemma dots_setDot_other:
  "k \<noteq> s \<Longrightarrow> map_of (dots (setDot s f add dt d)) k = map_of (dots d) k"
  by (auto simp: setDot_def dots_removeDot dots_pushDot dots_setMarker map_of_map_assign
      split: list.splits)

lemma dots_setDot_single:
  "0 \<le> s \<Longrightarrow> s < strings d \<Longrightarrow> f \<noteq> 0 \<Longrightarrow>
   map_of (dots (setDot s f False dt d)) s = Some [Dot f dt]"
  by (simp add: setDot_def dots_setMarker dots_pushDot map_of_map_assign)

lemma read_item_fields [simp]:
  "strings (read_item no it e) = strings e"
  "frets (read_item no it e) = frets e"
  "fretOffset (read_item no it e) = fretOffset e"
  by (cases it; simp)+

lemma read_item_barres: "barres e = [] \<Longrightarrow> barres (read_item no it e) = []"
  by (cases it) (simp_all add: barres_setMarker)

lemma read_item_other: "k \<noteq> no \<Longrightarrow> map_of (dots (read_item no it e)) k = map_of (dots e) k"
  by (cases it) (simp_all add: dots_setDot_other dots_setMarker)

lemma fold_read_item_fields [simp]:
  "strings (fold (read_item no) its e) = strings e"
  "frets (fold (read_item no) its e) = frets e"
  "fretOffset (fold (read_item no) its e) = fretOffset e"
  by (induction its arbitrary: e; simp)+

lemma fold_read_item_barres: "barres e = [] \<Longrightarrow> barres (fold (read_item no) its e) = []"
  by (induction its arbitrary: e) (simp_all add: read_item_barres)

lemma fold_read_item_other:
  "k \<noteq> no \<Longrightarrow> map_of (dots (fold (read_item no) its e)) k = map_of (dots e) k"
  by (induction its arbitrary: e) (simp_all add: read_item_other)

text \<open>A legacy document made of string elements only.\<close>

lemma read_strings_only:
  assumes "\<forall>el\<in>set doc. \<exists>no its. el = TagString no its"
  shows "snd (fold read_elem doc (e, hb, False)) = (hb, False)
    \<and> strings (fst (fold read_elem doc (e, hb, False))) = strings e
    \<and> (barres e = [] \<longrightarrow> barres (fst (fold read_elem doc (e, hb, False))) = [])
    \<and> ((\<forall>el\<in>set doc. \<forall>no its. el = TagString no its \<longrightarrow> no \<noteq> k) \<longrightarrow>
          map_of (dots (fst (fold read_elem doc (e, hb, False)))) k = map_of (dots e) k)"
  using assms
proof (induction doc arbitrary: e)
  case Nil
  then show ?case by simp
next
  case (Cons el doc)
  then obtain no its where el: "el = TagString no its" by auto
  let ?e = "fold (read_item no) its e"
  have st: "fold read_elem (el # doc) (e, hb, False) = fold read_elem doc (?e, hb, False)"
    by (simp add: el)
  have pre: "\<forall>el\<in>set doc. \<exists>no its. el = TagString no its" using Cons.prems by simp
  note ih = Cons.IH[OF pre, of ?e]
  have a: "snd (fold read_elem (el # doc) (e, hb, False)) = (hb, False)"
    unfolding st using ih by simp
  have b: "strings (fst (fold read_elem (el # doc) (e, hb, False))) = strings e"
    unfolding st using ih by simp
  have c: "barres (fst (fold read_elem (el # doc) (e, hb, False))) = []" if "barres e = []"
    unfolding st using ih fold_read_item_barres[OF that, of no its] by simp
  have d: "map_of (dots (fst (fold read_elem (el # doc) (e, hb, False)))) k = map_of (dots e) k"
    if "\<forall>x\<in>set (el # doc). \<forall>no its. x = TagString no its \<longrightarrow> no \<noteq> k"
  proof -
    from that have "no \<noteq> k" "\<forall>x\<in>set doc. \<forall>no its. x = TagString no its \<longrightarrow> no \<noteq> k"
      by (simp_all add: el)
    then show ?thesis unfolding st using ih fold_read_item_other[of k no its e] by simp
  qed
  from a b c d show ?case by blast
qed

lemma read_body:
  assumes "legacy_body doc"
  shows "snd (fold read_elem doc (e, hb, False)) = (hb, False)
    \<and> (barres e = [] \<longrightarrow> barres (fst (fold read_elem doc (e, hb, False))) = [])"
  using assms
proof (induction doc arbitrary: e)
  case Nil
  then show ?case by simp
next
  case (Cons el doc)
  have pl: "plain_elem el" and pre: "legacy_body doc"
    using Cons.prems by (simp_all add: legacy_body_def)
  obtain e' where st: "read_elem el (e, hb, False) = (e', hb, False)"
    and be: "barres e = [] \<longrightarrow> barres e' = []"
    using pl
    by (cases el) (simp_all add: fold_read_item_barres setStrings_def Let_def
        setStrings_barre_fold_fresh)
  have f: "fold read_elem (el # doc) (e, hb, False) = fold read_elem doc (e', hb, False)"
    using st by simp
  show ?case unfolding f using Cons.IH[OF pre, of e'] be by simp
qed

lemma read_no_flag:
  assumes "legacy_body doc"
  shows "read doc e = fst (fold read_elem doc (e, False, False))"
  using read_body[OF assms, of e False] by (simp add: read_def Let_def)

lemma strings_only_body:
  "\<forall>el\<in>set doc. \<exists>no its. el = TagString no its \<Longrightarrow> legacy_body doc"
  by (induction doc) (auto simp: legacy_body_def)

lemma firstDot_none: "\<forall>s\<in>set ks. \<not> dotExists (dot e s 0) \<Longrightarrow> firstDot e ks = None"
  by (induction ks) (simp_all add: dotExists_def)

lemma firstDot_first:
  "\<forall>i\<in>set pre. \<not> dotExists (dot e i 0) \<Longrightarrow> find dot_exists (dot e s 0) = Some x \<Longrightarrow>
   firstDot e (pre @ s # post) = Some (s, fret x)"
  by (induction pre) (simp_all add: dotExists_def)

lemma read_with_flag:
  assumes "legacy_body doc"
  shows "read (doc @ [TagBarre True]) e =
     (case firstDot (read doc e) [0..strings (read doc e) - 1] of
        Some p \<Rightarrow> setBarre (fst p) (-1) (snd p) (read doc e)
      | None \<Rightarrow> read doc e)"
proof -
  obtain e1 where e1: "fold read_elem doc (e, False, False) = (e1, False, False)"
    using read_body[OF assms, of e False] by (metis prod.collapse)
  have r: "read doc e = e1" using read_no_flag[OF assms, of e] e1 by simp
  show ?thesis unfolding r by (simp add: read_def Let_def e1 split: option.splits)
qed

lemma legacy_read_barre:
  assumes doc: "legacy_body doc" and b0: "barres e = []"
  shows "((\<forall>s. 0 \<le> s \<and> s < strings (read doc e) \<longrightarrow> \<not> dotExists (dot (read doc e) s 0)) \<longrightarrow>
            read (doc @ [TagBarre True]) e = read doc e \<and> barres (read doc e) = [])
    \<and> (\<forall>s x. 0 \<le> s \<and> s < strings (read doc e) \<and> find dot_exists (dot (read doc e) s 0) = Some x \<and>
            (\<forall>i. 0 \<le> i \<and> i < s \<longrightarrow> \<not> dotExists (dot (read doc e) i 0)) \<longrightarrow>
            read (doc @ [TagBarre True]) e = (read doc e)\<lparr>barres := [(fret x, Barre s (-1))]\<rparr>)"
proof -
  define e1 where "e1 = read doc e"
  have be: "barres e1 = []"
    using read_body[OF doc, of e False] b0 by (simp add: e1_def read_no_flag[OF doc])
  note rf = read_with_flag[OF doc, of e, folded e1_def]
  have A: "read (doc @ [TagBarre True]) e = e1 \<and> barres e1 = []"
    if "\<forall>s. 0 \<le> s \<and> s < strings e1 \<longrightarrow> \<not> dotExists (dot e1 s 0)"
  proof -
    have "\<forall>s\<in>set [0..strings e1 - 1]. \<not> dotExists (dot e1 s 0)" using that by simp
    then have "firstDot e1 [0..strings e1 - 1] = None" by (rule firstDot_none)
    then show ?thesis using rf be by simp
  qed
  have B: "read (doc @ [TagBarre True]) e = e1\<lparr>barres := [(fret x, Barre s (-1))]\<rparr>"
    if "0 \<le> s \<and> s < strings e1 \<and> find dot_exists (dot e1 s 0) = Some x \<and>
            (\<forall>i. 0 \<le> i \<and> i < s \<longrightarrow> \<not> dotExists (dot e1 i 0))" for s x
  proof -
    have sp: "[0..strings e1 - 1] = [0..s - 1] @ s # [s + 1..strings e1 - 1]"
      using that by (intro upto_split3) simp_all
    have "\<forall>i\<in>set [0..s - 1]. \<not> dotExists (dot e1 i 0)" using that by simp
    from firstDot_first[OF this, of s x "[s + 1..strings e1 - 1]"] that
    have fd: "firstDot e1 [0..strings e1 - 1] = Some (s, fret x)" by (simp add: sp)
    have "setBarre s (-1) (fret x) e1 = e1\<lparr>barres := [(fret x, Barre s (-1))]\<rparr>"
      using that be by (simp add: setBarre_def)
    then show ?thesis using rf fd by simp
  qed
  show ?thesis unfolding e1_def[symmetric] using A B by blast
qed

text \<open>Writing a full-width barre on the lowest dotted fret and reading it back.\<close>

lemma ordered_unique_value:
  assumes "ordered m" and "(k, v) \<in> set m" and "(k, v') \<in> set m"
  shows "v = v'"
proof -
  have dm: "distinct (map fst m)" using assms(1) by (rule ordered_distinct)
  from map_of_is_SomeI[OF dm assms(2)] map_of_is_SomeI[OF dm assms(3)]
  show ?thesis by simp
qed

lemma writeOld_string_elems:
  "el \<in> set (writeOld_string d bs bf i) \<Longrightarrow> \<exists>its. el = TagString i its"
  by (simp add: writeOld_string_def Let_def split: if_splits)

lemma writeOld_barre_full_width:
  assumes ord: "ordered (barres d)"
    and mem: "(F, Barre 0 (-1)) \<in> set (barres d)"
    and low: "lowest_fret d F"
    and nolower: "\<forall>e\<in>set (barres d). fst e < F \<longrightarrow> \<not> (barre_exists (snd e) \<and> endString (snd e) = -1)"
  shows "writeOld_barre d = (0, F)"
proof -
  from low obtain i where di: "dotted d i F" unfolding lowest_fret_def by blast
  note lo = lowestDot_some[OF di]
  have fF: "fst (lowestDot d) = F" using lo low lowest_fret_unique by blast
  have l0: "0 \<le> snd (lowestDot d)" using lo unfolding leftmost_on_def dotted_def by blast
  have q: "legacy_cond (fst (lowestDot d)) (snd (lowestDot d)) (F, Barre 0 (-1))"
    using l0 by (simp add: legacy_cond_def fF barre_exists_def)
  from findBarre_cases[of "fst (lowestDot d)" "snd (lowestDot d)" "barres d"] q mem
  obtain e where e: "e \<in> set (barres d)" "legacy_cond (fst (lowestDot d)) (snd (lowestDot d)) e"
      "writeOld_barre d = (startString (snd e), fst e)"
    unfolding writeOld_barre_def by blast
  have "\<not> fst e < F" using e(1,2) nolower unfolding legacy_cond_def by blast
  moreover have "fst e \<le> F" using e(2) unfolding legacy_cond_def fF by blast
  ultimately have k: "fst e = F" by simp
  have "(F, snd e) \<in> set (barres d)" using e(1) k by (metis prod.collapse)
  from ordered_unique_value[OF ord this mem] have "snd e = Barre 0 (-1)" .
  then show ?thesis using e(3) k by simp
qed

lemma legacy_roundtrip:
  assumes ord: "ordered (barres d)"
    and mem: "(F, Barre 0 (-1)) \<in> set (barres d)"
    and low: "lowest_fret d F"
    and nolower: "\<forall>e\<in>set (barres d). fst e < F \<longrightarrow> \<not> (barre_exists (snd e) \<and> endString (snd e) = -1)"
  shows "TagBarre True \<in> set (writeOld d)
    \<and> barres (read (writeOld d) (clear d)) = [(F, Barre 0 (-1))]
    \<and> dot (read (writeOld d) (clear d)) 0 0 = [Dot F DotNORMAL]"
proof -
  note wb = writeOld_barre_full_width[OF assms]
  from low obtain i x where di: "0 \<le> i" "i < strings d" "dot_exists x" "fret x = F"
    unfolding lowest_fret_def dotted_def by blast
  have Fp: "0 < F" using di(3,4) by (simp add: dot_exists_def)
  have np: "0 < strings d" using di(1,2) by simp
  define its0 where "its0 =
     (if marker_exists (marker d 0)
      then [OldMarker (of_char (markerToChar (mtype (marker d 0))))] else []) @
     map (\<lambda>x. OldDot (fret x)) (filter (\<lambda>x. dot_exists x \<and> fret x \<noteq> F) (dot d 0 0))"
  define rest where "rest = concat (map (writeOld_string d 0 F) [1..strings d - 1])"
  define doc where "doc = TagString 0 (its0 @ [OldDot F]) # rest"
  have up: "[0..strings d - 1] = 0 # [1..strings d - 1]"
    using np by (simp add: upto_rec1)
  have w: "writeOld d = doc @ [TagBarre True]"
    using Fp unfolding writeOld_def Let_def wb fst_conv snd_conv up doc_def rest_def its0_def
    by (simp add: writeOld_string_start)
  have restel: "\<exists>no its. el = TagString no its \<and> no \<noteq> 0" if "el \<in> set rest" for el
  proof -
    from that obtain j where j: "j \<in> set [1..strings d - 1]" "el \<in> set (writeOld_string d 0 F j)"
      unfolding rest_def by auto
    from writeOld_string_elems[OF j(2)] j(1) show ?thesis by auto
  qed
  have rs: "\<forall>el\<in>set rest. \<exists>no its. el = TagString no its" using restel by blast
  have rk: "\<forall>el\<in>set rest. \<forall>no its. el = TagString no its \<longrightarrow> no \<noteq> 0" using restel by blast
  have "\<forall>el\<in>set doc. \<exists>no its. el = TagString no its" using rs by (simp add: doc_def)
  then have ds: "legacy_body doc" by (rule strings_only_body)
  define ea where "ea = setDot 0 F False DotNORMAL (fold (read_item 0) its0 (clear d))"
  have sa: "strings ea = strings d" by (simp add: ea_def setDot_fields clear_def)
  have ba: "barres ea = []"
    by (simp add: ea_def fold_read_item_barres clear_def)
  have da: "map_of (dots ea) 0 = Some [Dot F DotNORMAL]"
    unfolding ea_def using np Fp by (intro dots_setDot_single) (simp_all add: clear_def)
  have st: "fold read_elem doc (clear d, False, False) = fold read_elem rest (ea, False, False)"
    by (simp add: doc_def ea_def)
  define e1 where "e1 = read doc (clear d)"
  have e1: "e1 = fst (fold read_elem rest (ea, False, False))"
    unfolding e1_def read_no_flag[OF ds] st ..
  note ro = read_strings_only[OF rs, of ea False 0, folded e1]
  have s1: "strings e1 = strings d" using ro sa by simp
  have d1: "map_of (dots e1) 0 = Some [Dot F DotNORMAL]" using ro rk da by simp
  have dd: "dot e1 0 0 = [Dot F DotNORMAL]" by (simp add: dot_def d1)
  have fd: "find dot_exists (dot e1 0 0) = Some (Dot F DotNORMAL)"
    using Fp by (simp add: dd dot_exists_def)
  have cb: "barres (clear d) = []" by (simp add: clear_def)
  have pre: "0 \<le> (0::int) \<and> 0 < strings e1 \<and> find dot_exists (dot e1 0 0) = Some (Dot F DotNORMAL) \<and>
            (\<forall>i. 0 \<le> i \<and> i < 0 \<longrightarrow> \<not> dotExists (dot e1 i 0))"
    using fd s1 np by auto
  from legacy_read_barre[OF ds cb, folded e1_def] pre
  have r: "read (doc @ [TagBarre True]) (clear d) = e1\<lparr>barres := [(fret (Dot F DotNORMAL), Barre 0 (-1))]\<rparr>"
    by blast
  show ?thesis unfolding w r using dd by (simp add: dot_def)
qed

text \<open>
  C6 (as stated, refuted): the flag is not written for every barre that meets (a), (b) and
  (c), and a full-width open barre on the lowest dotted fret does not always come back.
  After \<^verbatim>\<open>setDot(0, 1)\<close> and \<^verbatim>\<open>setBarre(0, -1, 0)\<close> on a diagram of 6 strings the barre on
  fret 0 exists, is open and sits below the lowest dotted fret 1, yet \<^verbatim>\<open>writeOld\<close> writes
  the synthetic dot of fret 0 and no flag, since the flag is guarded by \<^verbatim>\<open>barreFret > 0\<close>.
  After \<^verbatim>\<open>setBarre(2, -1, 1)\<close>, \<^verbatim>\<open>setBarre(0, -1, 2)\<close> and \<^verbatim>\<open>setDot(3, 2)\<close> the lowest dotted
  fret is 2 and holds a full-width open barre, but the loop over the barres stops at the
  barre of fret 1: the legacy document carries a synthetic dot on string 2, fret 1, and
  reading it back gives the one barre of fret 1 from string 2.
\<close>

theorem writeOld_legacy_counterexample:
  "qualifies (setBarre 0 (-1) 0 (setDot 0 1 False DotNORMAL (newDiagram 6 4))) 0 (Barre 0 (-1))
   \<and> barres (setBarre 0 (-1) 0 (setDot 0 1 False DotNORMAL (newDiagram 6 4))) = [(0, Barre 0 (-1))]
   \<and> writeOld (setBarre 0 (-1) 0 (setDot 0 1 False DotNORMAL (newDiagram 6 4))) =
        [TagString 0 [OldDot 1, OldDot 0]]
   \<and> lowest_fret (setDot 3 2 False DotNORMAL (setBarre 0 (-1) 2 (setBarre 2 (-1) 1 (newDiagram 6 4)))) 2
   \<and> barres (setDot 3 2 False DotNORMAL (setBarre 0 (-1) 2 (setBarre 2 (-1) 1 (newDiagram 6 4)))) =
        [(1, Barre 2 (-1)), (2, Barre 0 (-1))]
   \<and> writeOld (setDot 3 2 False DotNORMAL (setBarre 0 (-1) 2 (setBarre 2 (-1) 1 (newDiagram 6 4)))) =
        [TagString 2 [OldDot 1], TagString 3 [OldDot 2], TagBarre True]
   \<and> barres (read [TagString 2 [OldDot 1], TagString 3 [OldDot 2], TagBarre True]
        (clear (setDot 3 2 False DotNORMAL (setBarre 0 (-1) 2 (setBarre 2 (-1) 1 (newDiagram 6 4)))))) =
        [(1, Barre 2 (-1))]"
proof -
  define d1 where "d1 = setBarre 0 (-1) 0 (setDot 0 1 False DotNORMAL (newDiagram 6 4))"
  define d2 where
    "d2 = setDot 3 2 False DotNORMAL (setBarre 0 (-1) 2 (setBarre 2 (-1) 1 (newDiagram 6 4)))"
  have v1: "d1 = \<lparr>strings = 6, frets = 4, fretOffset = 0, dots = [(0, [Dot 1 DotNORMAL])],
      markers = [(0, Marker MarkerNONE)], barres = [(0, Barre 0 (-1))]\<rparr>"
    unfolding d1_def by code_simp
  have v2: "d2 = \<lparr>strings = 6, frets = 4, fretOffset = 0, dots = [(3, [Dot 2 DotNORMAL])],
      markers = [(3, Marker MarkerNONE)], barres = [(1, Barre 2 (-1)), (2, Barre 0 (-1))]\<rparr>"
    unfolding d2_def by code_simp
  have t1: "dotted d1 0 1" unfolding v1 by (simp add: dotted_def dot_def dot_exists_def)
  have l1: "lowestDot d1 = (1, 0)" unfolding v1 by code_simp
  have t2: "dotted d2 3 2" unfolding v2 by (simp add: dotted_def dot_def dot_exists_def)
  have l2: "lowestDot d2 = (2, 3)" unfolding v2 by code_simp
  have f1: "lowest_fret d1 1 \<and> leftmost_on d1 1 0" using lowestDot_some[OF t1] by (simp add: l1)
  have "lowest_fret d1 1 \<and> leftmost_on d1 1 0 \<and> (0::int) \<le> 1 \<and>
      \<not> ((0::int) = 1 \<and> 0 < startString (Barre 0 (-1)))"
    using f1 by simp
  then have ex: "\<exists>L l. lowest_fret d1 L \<and> leftmost_on d1 L l \<and> (0::int) \<le> L \<and>
      \<not> ((0::int) = L \<and> l < startString (Barre 0 (-1)))"
    by blast
  have A: "qualifies d1 0 (Barre 0 (-1))"
    unfolding qualifies_def using ex by (simp add: barre_exists_def)
  have B: "barres d1 = [(0, Barre 0 (-1))]" by (simp add: v1)
  have C: "writeOld d1 = [TagString 0 [OldDot 1, OldDot 0]]" unfolding v1 by code_simp
  have D: "lowest_fret d2 2" using lowestDot_some[OF t2] by (simp add: l2)
  have E: "barres d2 = [(1, Barre 2 (-1)), (2, Barre 0 (-1))]" by (simp add: v2)
  have F: "writeOld d2 = [TagString 2 [OldDot 1], TagString 3 [OldDot 2], TagBarre True]"
    unfolding v2 by code_simp
  have G: "barres (read [TagString 2 [OldDot 1], TagString 3 [OldDot 2], TagBarre True] (clear d2)) =
        [(1, Barre 2 (-1))]"
    unfolding v2 by code_simp
  from A B C D E F G show ?thesis unfolding d1_def d2_def by blast
qed

text \<open>
  C6 (amended): legacy serialization of barres. (1) On a diagram whose barres all sit on
  frets from 1 up, \<^verbatim>\<open>writeOld\<close> emits the boolean barre tag if and only if some existing barre
  (a) sits at a fret at or below the lowest fret carrying any dot, (b) has an open end, and
  (c) does not start to the right of the leftmost dot on the lowest dotted fret when it
  sits on that fret. (2) When the tag is emitted, one such barre sits on a positive fret
  and, if its start string is a string of the diagram, the element of that string ends
  with the synthetic dot of the barre fret, after the marker and the real dots of the
  other frets: a real dot on the barre fret is suppressed. (3) The legacy reader, on a
  document body without barre flag and without a block of the current format, followed by
  a true barre flag, and started on a diagram without barres, yields what the body alone
  yields, with exactly one barre added: the open barre from the first string holding an
  existing dot, at the fret of the first existing dot of that string; it adds no barre
  when no string holds an existing dot. (4) A diagram whose barres are in key order, with
  a full-width open barre on the lowest dotted fret \<open>F\<close> and no existing open barre on a
  lower fret, is written with the barre tag and read back, on the cleared diagram, to the
  single barre of fret \<open>F\<close> from string 0 with open end; string 0 then holds the one dot
  of fret \<open>F\<close>.
\<close>

theorem writeOld_legacy_barre:
  "((\<forall>e\<in>set (barres d). 1 \<le> fst e) \<longrightarrow>
      (TagBarre True \<in> set (writeOld d) \<longleftrightarrow>
       (\<exists>e\<in>set (barres d). qualifies d (fst e) (snd e))))
   \<and> (TagBarre True \<in> set (writeOld d) \<longrightarrow>
        (\<exists>e\<in>set (barres d). qualifies d (fst e) (snd e) \<and> 0 < fst e \<and>
           (startString (snd e) < strings d \<longrightarrow>
            TagString (startString (snd e))
              ((if marker_exists (marker d (startString (snd e)))
                then [OldMarker (of_char (markerToChar (mtype (marker d (startString (snd e))))))]
                else []) @
               map (\<lambda>x. OldDot (fret x))
                 (filter (\<lambda>x. dot_exists x \<and> fret x \<noteq> fst e) (dot d (startString (snd e)) 0)) @
               [OldDot (fst e)]) \<in> set (writeOld d))))
   \<and> (legacy_body doc \<and> barres e0 = [] \<longrightarrow>
        ((\<forall>s. 0 \<le> s \<and> s < strings (read doc e0) \<longrightarrow> \<not> dotExists (dot (read doc e0) s 0)) \<longrightarrow>
            read (doc @ [TagBarre True]) e0 = read doc e0 \<and> barres (read doc e0) = [])
      \<and> (\<forall>s x. 0 \<le> s \<and> s < strings (read doc e0) \<and>
            find dot_exists (dot (read doc e0) s 0) = Some x \<and>
            (\<forall>i. 0 \<le> i \<and> i < s \<longrightarrow> \<not> dotExists (dot (read doc e0) i 0)) \<longrightarrow>
            read (doc @ [TagBarre True]) e0 =
              (read doc e0)\<lparr>barres := [(fret x, Barre s (-1))]\<rparr>))
   \<and> (ordered (barres d) \<and> (F, Barre 0 (-1)) \<in> set (barres d) \<and> lowest_fret d F \<and>
        (\<forall>e\<in>set (barres d). fst e < F \<longrightarrow> \<not> (barre_exists (snd e) \<and> endString (snd e) = -1)) \<longrightarrow>
        TagBarre True \<in> set (writeOld d)
      \<and> barres (read (writeOld d) (clear d)) = [(F, Barre 0 (-1))]
      \<and> dot (read (writeOld d) (clear d)) 0 0 = [Dot F DotNORMAL])"
proof -
  have A: "TagBarre True \<in> set (writeOld d) \<longleftrightarrow>
       (\<exists>e\<in>set (barres d). qualifies d (fst e) (snd e))" if "\<forall>e\<in>set (barres d). 1 \<le> fst e"
    using that by (rule writeOld_flag_iff)
  have B: "\<exists>e\<in>set (barres d). qualifies d (fst e) (snd e) \<and> 0 < fst e \<and>
           (startString (snd e) < strings d \<longrightarrow>
            TagString (startString (snd e))
              ((if marker_exists (marker d (startString (snd e)))
                then [OldMarker (of_char (markerToChar (mtype (marker d (startString (snd e))))))]
                else []) @
               map (\<lambda>x. OldDot (fret x))
                 (filter (\<lambda>x. dot_exists x \<and> fret x \<noteq> fst e) (dot d (startString (snd e)) 0)) @
               [OldDot (fst e)]) \<in> set (writeOld d))" if "TagBarre True \<in> set (writeOld d)"
    using writeOld_synthetic[OF that] by blast
  have C: "((\<forall>s. 0 \<le> s \<and> s < strings (read doc e0) \<longrightarrow> \<not> dotExists (dot (read doc e0) s 0)) \<longrightarrow>
            read (doc @ [TagBarre True]) e0 = read doc e0 \<and> barres (read doc e0) = [])
      \<and> (\<forall>s x. 0 \<le> s \<and> s < strings (read doc e0) \<and>
            find dot_exists (dot (read doc e0) s 0) = Some x \<and>
            (\<forall>i. 0 \<le> i \<and> i < s \<longrightarrow> \<not> dotExists (dot (read doc e0) i 0)) \<longrightarrow>
            read (doc @ [TagBarre True]) e0 =
              (read doc e0)\<lparr>barres := [(fret x, Barre s (-1))]\<rparr>)"
    if "legacy_body doc \<and> barres e0 = []"
    using legacy_read_barre[of doc e0] that by blast
  have D: "TagBarre True \<in> set (writeOld d)
      \<and> barres (read (writeOld d) (clear d)) = [(F, Barre 0 (-1))]
      \<and> dot (read (writeOld d) (clear d)) 0 0 = [Dot F DotNORMAL]"
    if "ordered (barres d) \<and> (F, Barre 0 (-1)) \<in> set (barres d) \<and> lowest_fret d F \<and>
        (\<forall>e\<in>set (barres d). fst e < F \<longrightarrow> \<not> (barre_exists (snd e) \<and> endString (snd e) = -1))"
    using legacy_roundtrip[of d F] that by blast
  from A B C D show ?thesis by blast
qed

theorem writeOld_legacy_barre_witness:
  "TagBarre True \<in> set (writeOld (setBarre 0 (-1) 1 (setDot 2 1 False DotNORMAL (newDiagram 6 4))))
   \<and> (\<exists>e\<in>set (barres (setBarre 0 (-1) 1 (setDot 2 1 False DotNORMAL (newDiagram 6 4)))).
        qualifies (setBarre 0 (-1) 1 (setDot 2 1 False DotNORMAL (newDiagram 6 4))) (fst e) (snd e)
        \<and> 0 < fst e)
   \<and> writeOld (setBarre 0 (-1) 1 (setDot 2 1 False DotNORMAL (newDiagram 6 4))) =
       [TagString 0 [OldDot 1], TagString 2 [OldDot 1], TagBarre True]
   \<and> read ([TagString 0 [OldDot 1], TagString 2 [OldDot 1]] @ [TagBarre True])
        (clear (setBarre 0 (-1) 1 (setDot 2 1 False DotNORMAL (newDiagram 6 4)))) =
       (read [TagString 0 [OldDot 1], TagString 2 [OldDot 1]]
          (clear (setBarre 0 (-1) 1 (setDot 2 1 False DotNORMAL (newDiagram 6 4)))))
        \<lparr>barres := [(fret (Dot 1 DotNORMAL), Barre 0 (-1))]\<rparr>
   \<and> read ([TagStrings 5] @ [TagBarre True])
        (clear (setBarre 0 (-1) 1 (setDot 2 1 False DotNORMAL (newDiagram 6 4)))) =
       read [TagStrings 5] (clear (setBarre 0 (-1) 1 (setDot 2 1 False DotNORMAL (newDiagram 6 4))))
   \<and> barres (read (writeOld (setBarre 0 (-1) 1 (setDot 2 1 False DotNORMAL (newDiagram 6 4))))
        (clear (setBarre 0 (-1) 1 (setDot 2 1 False DotNORMAL (newDiagram 6 4))))) =
       [(1, Barre 0 (-1))]"
proof -
  define dw where "dw = setBarre 0 (-1) 1 (setDot 2 1 False DotNORMAL (newDiagram 6 4))"
  define doc where "doc = [TagString 0 [OldDot 1], TagString 2 [OldDot 1]]"
  have v: "dw = \<lparr>strings = 6, frets = 4, fretOffset = 0, dots = [(2, [Dot 1 DotNORMAL])],
      markers = [(2, Marker MarkerNONE)], barres = [(1, Barre 0 (-1))]\<rparr>"
    unfolding dw_def by code_simp
  have w: "writeOld dw = [TagString 0 [OldDot 1], TagString 2 [OldDot 1], TagBarre True]"
    unfolding v by code_simp
  have r: "read doc (clear dw) = \<lparr>strings = 6, frets = 4, fretOffset = 0,
      dots = [(0, [Dot 1 DotNORMAL]), (2, [Dot 1 DotNORMAL])],
      markers = [(0, Marker MarkerNONE), (2, Marker MarkerNONE)], barres = []\<rparr>"
    unfolding v doc_def by code_simp
  have r0: "read [TagStrings 5] (clear dw) = \<lparr>strings = 5, frets = 4, fretOffset = 0,
      dots = [], markers = [], barres = []\<rparr>"
    unfolding v by code_simp
  have h1: "\<forall>e\<in>set (barres dw). 1 \<le> fst e" by (simp add: v)
  have h2: "TagBarre True \<in> set (writeOld dw)" by (simp add: w)
  have h3: "legacy_body doc \<and> barres (clear dw) = []"
    by (simp add: doc_def legacy_body_def clear_def)
  have h3b: "0 \<le> (0::int) \<and> 0 < strings (read doc (clear dw)) \<and>
      find dot_exists (dot (read doc (clear dw)) 0 0) = Some (Dot 1 DotNORMAL) \<and>
      (\<forall>i. 0 \<le> i \<and> i < 0 \<longrightarrow> \<not> dotExists (dot (read doc (clear dw)) i 0))"
    unfolding r by (auto simp: dot_def dot_exists_def)
  have h3c: "legacy_body [TagStrings 5] \<and> barres (clear dw) = []"
    by (simp add: legacy_body_def clear_def)
  have h3d: "\<forall>s. 0 \<le> s \<and> s < strings (read [TagStrings 5] (clear dw)) \<longrightarrow>
      \<not> dotExists (dot (read [TagStrings 5] (clear dw)) s 0)"
    unfolding r0 by (simp add: dot_def dotExists_def dot_exists_def)
  have t: "dotted dw 2 1" unfolding v by (simp add: dotted_def dot_def dot_exists_def)
  have l: "lowestDot dw = (1, 2)" unfolding v by code_simp
  have lf: "lowest_fret dw 1" using lowestDot_some[OF t] by (simp add: l)
  have h4: "ordered (barres dw) \<and> (1, Barre 0 (-1)) \<in> set (barres dw) \<and> lowest_fret dw 1 \<and>
        (\<forall>e\<in>set (barres dw). fst e < 1 \<longrightarrow> \<not> (barre_exists (snd e) \<and> endString (snd e) = -1))"
    using lf by (simp add: v ordered_def)
  note th = writeOld_legacy_barre[where d = dw and doc = doc and ?e0.0 = "clear dw" and F = 1]
  note th0 = writeOld_legacy_barre[where d = dw and doc = "[TagStrings 5]" and ?e0.0 = "clear dw"
      and F = 1]
  have c1: "(TagBarre True \<in> set (writeOld dw)) =
      (\<exists>e\<in>set (barres dw). qualifies dw (fst e) (snd e))" using th h1 by blast
  have c2: "\<exists>e\<in>set (barres dw). qualifies dw (fst e) (snd e) \<and> 0 < fst e" using th h2 by blast
  have c3: "read (doc @ [TagBarre True]) (clear dw) =
      (read doc (clear dw))\<lparr>barres := [(fret (Dot 1 DotNORMAL), Barre 0 (-1))]\<rparr>"
    using th h3 h3b by blast
  have c3b: "read ([TagStrings 5] @ [TagBarre True]) (clear dw) = read [TagStrings 5] (clear dw)"
    using th0 h3c h3d by blast
  have c4: "barres (read (writeOld dw) (clear dw)) = [(1, Barre 0 (-1))]" using th h4 by blast
  from h2 c1 c2 w c3 c3b c4 show ?thesis unfolding dw_def doc_def by blast
qed

end
